theory Spec2Isabelle
  imports Main
begin

section \<open>Dates (src/utils/dateUtils.js)\<close>

text \<open>
  A JavaScript \<^verbatim>\<open>Date\<close> is a number of milliseconds since the epoch; the model keeps that
  number as an \<^typ>\<open>int\<close>. The local-time methods \<^verbatim>\<open>setHours\<close> and \<^verbatim>\<open>setDate\<close> are modelled
  for a process whose time zone is UTC (every day has 86400000 ms). The source's
  \<^verbatim>\<open>Math.floor(x / (1000 * 60 * 60 * 24))\<close> on a difference of two dates is integer floor
  division, which is what \<open>div\<close> on \<^typ>\<open>int\<close> computes.
\<close>

type_synonym date = int

definition msPerDay :: int where
  "msPerDay = 1000 * 60 * 60 * 24"

definition addDays :: "date \<Rightarrow> int \<Rightarrow> date" where
  "addDays d days = d + days * msPerDay"

definition startOfToday :: "date \<Rightarrow> date" where
  "startOfToday now = now - now mod msPerDay"

text \<open>\<^verbatim>\<open>d.setHours(23, 59, 59, 999)\<close>\<close>

definition setHoursEndOfDay :: "date \<Rightarrow> date" where
  "setHoursEndOfDay d = d - d mod msPerDay + (msPerDay - 1)"

section \<open>Data model (src/models)\<close>

datatype sub_status = Active | Expired | Cancelled | Grace

datatype user_status = UActive | UExpired | UPending | UInactive | UBlocked

datatype flag = Day7 | Day3 | Day1 | Day0

record graceNotifications_t =
  day1 :: bool
  day2 :: bool
  day3 :: bool

record subscription =
  sid :: nat
  userId :: nat
  telegramId :: int
  planId :: nat
  planName :: string
  durationDays :: int
  startDate :: date
  expiryDate :: date
  status :: sub_status
  approvedBy :: "int option"
  inviteLink :: "string option"
  reminderFlags :: "flag \<Rightarrow> bool"
  graceDaysUsed :: int
  graceNotifications :: graceNotifications_t
  isRenewal :: bool

record user =
  uid :: nat
  u_telegramId :: int
  u_name :: string
  u_status :: user_status
  isBlocked :: bool
  referredBy :: "int option"
  referralBonusApplied :: bool
  graceDaysRemaining :: "int option"

record plan =
  p_id :: nat
  p_name :: string
  p_durationDays :: int

datatype details =
    Reason string
  | ReasonOverdue string int
  | ReferralBonus int int
  | ApproveDetails string int bool

record adminLog =
  adminId :: int
  actionType :: string
  targetUserId :: "int option"
  logDetails :: details

section \<open>Collaborators and the world\<close>

text \<open>
  The texts sent by the bot, one constructor per template, carrying the values the
  template interpolates.
\<close>

datatype message =
    ReminderMsg int date
  | SubscriptionExpiredMsg date int
  | AccessRemovedMsg
  | FinalWarningMsg
  | GraceReminderMsg int
  | RejoinMsg string
  | ReferralBonusMsg string int
  | GraceStartedAlert int string
  | UserRemovedAlert int int
  | BotBlockedAlert int
  | MonitorRemovedAlert int
  | RenewedMsg string int date
  | ApprovedMsg string int date "string option"
  | ApprovalAlert int string int date bool

text \<open>
  What the Telegram API answers to \<^verbatim>\<open>sendMessage\<close>: success, error 403 (the user blocked
  the bot), or any other error.
\<close>

datatype delivery = Delivered | Blocked403 | TransientError

text \<open>
  Calls made to the outside, in the order they are made. \<open>Visit i\<close> is not a call: a job
  records it when its loop starts working on the subscription whose \<^verbatim>\<open>_id\<close> is \<open>i\<close>, so
  that what a run does for one subscription can be told apart from what it does for
  another subscription of the same user.
\<close>

datatype event =
    Visit nat
  | SendMessage int message
  | ChannelPost message
  | BanChatMember int
  | CreateInviteLink int

datatype store_op =
    PlanFind
  | SubscriptionFind
  | SubscriptionCount
  | SubscriptionSave nat
  | SubscriptionCreate int
  | UserFind int
  | UserUpdate int
  | AdminLogCreate int
  | RequestUpdate int

text \<open>
  The environment of one run: the configuration variables (as \<^verbatim>\<open>parseInt\<close> reads them,
  \<open>None\<close> for \<^verbatim>\<open>NaN\<close>), the answers of the Telegram API and which database operations
  throw.
\<close>

record env =
  GRACE_PERIOD_DAYS :: "int option"
  BONUS_REFERRAL_DAYS :: "int option"
  deliver :: "int \<Rightarrow> message \<Rightarrow> delivery"
  banOk :: "int \<Rightarrow> bool"
  memberQueryOk :: "int \<Rightarrow> bool"
  inviteLinkFor :: "int \<Rightarrow> string option"
  fails :: "store_op \<Rightarrow> bool"

record world =
  subs :: "subscription list"
  users :: "user list"
  adminLogs :: "adminLog list"
  members :: "int set"
  trace :: "event list"

datatype err = StoreError store_op | UserNotFound int

text \<open>
  An \<^verbatim>\<open>async\<close> function resolves with a value or rejects; either way the writes it
  made before are kept.
\<close>

datatype 'a res = Ret 'a world | Rej err world

definition andThen :: "'a res \<Rightarrow> ('a \<Rightarrow> world \<Rightarrow> 'b res) \<Rightarrow> 'b res" where
  "andThen m k = (case m of Rej e w \<Rightarrow> Rej e w | Ret x w \<Rightarrow> k x w)"

primrec worldOf :: "'a res \<Rightarrow> world" where
  "worldOf (Ret x w) = w"
| "worldOf (Rej e w) = w"

primrec resolved :: "'a res \<Rightarrow> bool" where
  "resolved (Ret x w) = True"
| "resolved (Rej e w) = False"

text \<open>\<^verbatim>\<open>for (const x of xs) { await f(x) }\<close>: a rejection ends the loop.\<close>

fun forEach :: "('a \<Rightarrow> world \<Rightarrow> unit res) \<Rightarrow> 'a list \<Rightarrow> world \<Rightarrow> unit res" where
  "forEach f [] w = Ret () w"
| "forEach f (x # xs) w =
     (case f x w of Rej e w' \<Rightarrow> Rej e w' | Ret u w' \<Rightarrow> forEach f xs w')"

definition storeOk :: "env \<Rightarrow> bool" where
  "storeOk env = (\<forall>op. \<not> fails env op)"

text \<open>\<^verbatim>\<open>findOneAndUpdate\<close>, \<^verbatim>\<open>findByIdAndUpdate\<close>, \<^verbatim>\<open>save\<close>: the first matching document is changed.\<close>

fun updateFirst :: "('a \<Rightarrow> bool) \<Rightarrow> ('a \<Rightarrow> 'a) \<Rightarrow> 'a list \<Rightarrow> 'a list" where
  "updateFirst P f [] = []"
| "updateFirst P f (x # xs) = (if P x then f x # xs else x # updateFirst P f xs)"

definition getUser :: "world \<Rightarrow> int \<Rightarrow> user option" where
  "getUser w tid = find (\<lambda>u. u_telegramId u = tid) (users w)"

definition getSub :: "world \<Rightarrow> nat \<Rightarrow> subscription option" where
  "getSub w i = find (\<lambda>s. sid s = i) (subs w)"

definition emit :: "event \<Rightarrow> world \<Rightarrow> world" where
  "emit e w = w\<lparr>trace := trace w @ [e]\<rparr>"

definition updateUser :: "int \<Rightarrow> (user \<Rightarrow> user) \<Rightarrow> world \<Rightarrow> world" where
  "updateUser tid f w = w\<lparr>users := updateFirst (\<lambda>u. u_telegramId u = tid) f (users w)\<rparr>"

definition updateSub :: "nat \<Rightarrow> (subscription \<Rightarrow> subscription) \<Rightarrow> world \<Rightarrow> world" where
  "updateSub i f w = w\<lparr>subs := updateFirst (\<lambda>s. sid s = i) f (subs w)\<rparr>"

definition createLog :: "adminLog \<Rightarrow> world \<Rightarrow> world" where
  "createLog l w = w\<lparr>adminLogs := adminLogs w @ [l]\<rparr>"

section \<open>Telegram helpers (src/utils/telegramUtils.js)\<close>

definition blockedLog :: "int \<Rightarrow> adminLog" where
  "blockedLog tid = \<lparr>adminId = 0, actionType = ''ban_user'', targetUserId = Some tid,
     logDetails = Reason ''Bot blocked by user (403)''\<rparr>"

text \<open>
  \<^verbatim>\<open>handleBlockedUser\<close>: the three steps run inside one \<^verbatim>\<open>try\<close>; a database error in one
  of them skips the rest and is logged. The post to the log channel has its own
  \<^verbatim>\<open>.catch\<close>.
\<close>

definition handleBlockedUser :: "env \<Rightarrow> int \<Rightarrow> world \<Rightarrow> world" where
  "handleBlockedUser env tid w =
     (if fails env (UserUpdate tid) then w
      else let w1 = updateUser tid (\<lambda>u. u\<lparr>isBlocked := True, u_status := UBlocked\<rparr>) w in
        if fails env (AdminLogCreate tid) then w1
        else emit (ChannelPost (BotBlockedAlert tid)) (createLog (blockedLog tid) w1))"

definition safeSend :: "env \<Rightarrow> int \<Rightarrow> message \<Rightarrow> world \<Rightarrow> bool \<times> world" where
  "safeSend env tid msg w =
     (let w1 = emit (SendMessage tid msg) w in
      case deliver env tid msg of
        Delivered \<Rightarrow> (True, w1)
      | Blocked403 \<Rightarrow> (False, handleBlockedUser env tid w1)
      | TransientError \<Rightarrow> (False, w1))"

text \<open>\<^verbatim>\<open>generateInviteLink\<close>: the link, or \<^verbatim>\<open>null\<close> when the API call throws.\<close>

definition generateInviteLink :: "env \<Rightarrow> int \<Rightarrow> world \<Rightarrow> string option \<times> world" where
  "generateInviteLink env tid w = (inviteLinkFor env tid, emit (CreateInviteLink tid) w)"

text \<open>\<^verbatim>\<open>isGroupMember\<close>: \<^verbatim>\<open>false\<close> when \<^verbatim>\<open>getChatMember\<close> throws.\<close>

definition isGroupMember :: "env \<Rightarrow> int \<Rightarrow> world \<Rightarrow> bool" where
  "isGroupMember env tid w = (memberQueryOk env tid \<and> tid \<in> members w)"

text \<open>\<^verbatim>\<open>banFromGroup\<close>: a ban that succeeds takes the user out of the group.\<close>

definition banFromGroup :: "env \<Rightarrow> int \<Rightarrow> world \<Rightarrow> bool \<times> world" where
  "banFromGroup env tid w =
     (let w1 = emit (BanChatMember tid) w in
      if banOk env tid then (True, w1\<lparr>members := members w1 - {tid}\<rparr>) else (False, w1))"

text \<open>\<^verbatim>\<open>logToChannel\<close> (src/services/cronService.js): a failed post is only logged.\<close>

definition logToChannel :: "message \<Rightarrow> world \<Rightarrow> world" where
  "logToChannel msg w = emit (ChannelPost msg) w"

section \<open>Creating and renewing (src/services/subscriptionService.js)\<close>

text \<open>A new document gets an \<^verbatim>\<open>_id\<close> that no document of the collection has.\<close>

definition freshSid :: "subscription list \<Rightarrow> nat" where
  "freshSid ss = Suc (foldr max (map sid ss) 0)"

definition noGraceNotifications :: graceNotifications_t where
  "noGraceNotifications = \<lparr>day1 = False, day2 = False, day3 = False\<rparr>"

definition renew :: "date \<Rightarrow> plan \<Rightarrow> int \<Rightarrow> subscription \<Rightarrow> subscription \<Rightarrow> subscription" where
  "renew now pl admin existingSub s =
     (let baseDate = (if expiryDate existingSub > now then expiryDate existingSub else now);
          newExpiry = addDays baseDate (p_durationDays pl)
      in s\<lparr>expiryDate := newExpiry, planId := p_id pl, planName := p_name pl,
            durationDays := p_durationDays pl, status := Active, approvedBy := Some admin,
            isRenewal := True, graceDaysUsed := 0, graceNotifications := noGraceNotifications,
            reminderFlags := (\<lambda>f. False)\<rparr>)"

text \<open>
  \<^verbatim>\<open>createSubscription\<close>. \<^verbatim>\<open>User.findByIdAndUpdate(user._id, ...)\<close> changes the document
  that \<^verbatim>\<open>User.findOne({ telegramId })\<close> returned, the first one with that \<^verbatim>\<open>telegramId\<close>.
  The \<^verbatim>\<open>catch\<close> logs and throws again.
\<close>

definition createSubscription ::
  "env \<Rightarrow> date \<Rightarrow> int \<Rightarrow> plan \<Rightarrow> int \<Rightarrow> world \<Rightarrow> subscription res" where
  "createSubscription env now tid pl admin w =
     (if fails env (UserFind tid) then Rej (StoreError (UserFind tid)) w
      else case getUser w tid of
        None \<Rightarrow> Rej (UserNotFound tid) w
      | Some u \<Rightarrow>
          if fails env SubscriptionFind then Rej (StoreError SubscriptionFind) w
          else (case find (\<lambda>s. telegramId s = tid \<and> (status s = Active \<or> status s = Grace)) (subs w) of
            Some existingSub \<Rightarrow>
              if fails env (SubscriptionSave (sid existingSub))
              then Rej (StoreError (SubscriptionSave (sid existingSub))) w
              else let w1 = updateSub (sid existingSub) (renew now pl admin existingSub) w in
                if fails env (UserUpdate tid) then Rej (StoreError (UserUpdate tid)) w1
                else Ret (renew now pl admin existingSub existingSub)
                  (updateUser tid (\<lambda>u. u\<lparr>u_status := UActive, graceDaysRemaining := None\<rparr>) w1)
          | None \<Rightarrow>
              if fails env (SubscriptionCreate tid) then Rej (StoreError (SubscriptionCreate tid)) w
              else let subscription = \<lparr>sid = freshSid (subs w), userId = uid u, telegramId = tid,
                         planId = p_id pl, planName = p_name pl, durationDays = p_durationDays pl,
                         startDate = now, expiryDate = addDays now (p_durationDays pl),
                         status = Active, approvedBy = Some admin, inviteLink = None,
                         reminderFlags = (\<lambda>f. False), graceDaysUsed = 0,
                         graceNotifications = noGraceNotifications, isRenewal = False\<rparr>;
                       w1 = w\<lparr>subs := subs w @ [subscription]\<rparr>
                in if fails env (UserUpdate tid) then Rej (StoreError (UserUpdate tid)) w1
                   else Ret subscription
                     (updateUser tid (\<lambda>u. u\<lparr>u_status := UActive, graceDaysRemaining := None\<rparr>) w1)))"

section \<open>Referral bonus (src/services/referralService.js)\<close>

text \<open>\<^verbatim>\<open>parseInt(process.env.X) || 3\<close>: \<^verbatim>\<open>NaN\<close> and 0 give 3.\<close>

definition orThree :: "int option \<Rightarrow> int" where
  "orThree v = (case v of None \<Rightarrow> 3 | Some n \<Rightarrow> if n = 0 then 3 else n)"

definition BONUS_DAYS :: "env \<Rightarrow> int" where
  "BONUS_DAYS env = orThree (BONUS_REFERRAL_DAYS env)"

definition referralLog :: "env \<Rightarrow> int \<Rightarrow> int \<Rightarrow> adminLog" where
  "referralLog env referrerId newSubscriberTelegramId =
     \<lparr>adminId = 0, actionType = ''referral_bonus'', targetUserId = Some referrerId,
      logDetails = ReferralBonus newSubscriberTelegramId (BONUS_DAYS env)\<rparr>"

text \<open>
  The last two statements of \<^verbatim>\<open>awardReferralBonus\<close>: the flag on the referred user and the
  audit entry. A database error leaves through the \<^verbatim>\<open>catch\<close> of the function.
\<close>

definition markBonusApplied :: "env \<Rightarrow> int \<Rightarrow> int \<Rightarrow> world \<Rightarrow> world" where
  "markBonusApplied env newSubscriberTelegramId referrerId w =
     (if fails env (UserUpdate newSubscriberTelegramId) then w
      else let w1 = updateUser newSubscriberTelegramId (\<lambda>u. u\<lparr>referralBonusApplied := True\<rparr>) w in
        if fails env (AdminLogCreate referrerId) then w1
        else createLog (referralLog env referrerId newSubscriberTelegramId) w1)"

definition subCount :: "world \<Rightarrow> int \<Rightarrow> nat" where
  "subCount w tid =
     length (filter (\<lambda>s. telegramId s = tid \<and> (status s = Active \<or> status s = Expired)) (subs w))"

text \<open>
  \<^verbatim>\<open>awardReferralBonus\<close>: the whole body is inside \<^verbatim>\<open>try\<close>, so the function always
  resolves. \<^verbatim>\<open>!newUser.referredBy\<close> holds for \<^verbatim>\<open>null\<close> and for 0. The referrer is told with
  a plain \<^verbatim>\<open>sendMessage\<close> whose errors are dropped.
\<close>

definition awardReferralBonus :: "env \<Rightarrow> date \<Rightarrow> int \<Rightarrow> world \<Rightarrow> world" where
  "awardReferralBonus env now newSubscriberTelegramId w =
     (if fails env (UserFind newSubscriberTelegramId) then w
      else case getUser w newSubscriberTelegramId of
        None \<Rightarrow> w
      | Some newUser \<Rightarrow>
         (case referredBy newUser of
            None \<Rightarrow> w
          | Some r \<Rightarrow>
              if r = 0 \<or> referralBonusApplied newUser then w
              else if fails env SubscriptionCount then w
              else if subCount w newSubscriberTelegramId > 1 then w
              else if fails env (UserFind r) then w
              else (case getUser w r of
                None \<Rightarrow> w
              | Some referrer \<Rightarrow>
                  if fails env SubscriptionFind then w
                  else (case find (\<lambda>s. telegramId s = u_telegramId referrer \<and> status s = Active
                                     \<and> expiryDate s > now) (subs w) of
                    Some referrerSub \<Rightarrow>
                      if fails env (SubscriptionSave (sid referrerSub)) then w
                      else markBonusApplied env newSubscriberTelegramId (u_telegramId referrer)
                        (emit (SendMessage (u_telegramId referrer)
                                 (ReferralBonusMsg (u_name newUser) (BONUS_DAYS env)))
                           (updateSub (sid referrerSub)
                              (\<lambda>s. s\<lparr>expiryDate := addDays (expiryDate referrerSub) (BONUS_DAYS env)\<rparr>) w))
                  | None \<Rightarrow>
                      markBonusApplied env newSubscriberTelegramId (u_telegramId referrer) w))))"

section \<open>Approval (src/bot/adminHandlers.js)\<close>

text \<open>
  The handler of the \<^verbatim>\<open>approve_\<close> button, from the point where the pending request (of
  user \<open>tid\<close>) and the plan have been resolved. The whole handler is inside \<^verbatim>\<open>try\<close>: a
  database error ends it. \<^verbatim>\<open>approveRequest\<close> writes the Request collection only, which
  the world does not hold. Editing the text of the log channel message, between the
  bonus and the channel post, changes nothing the world holds and is left out.
\<close>

definition approveAction :: "env \<Rightarrow> date \<Rightarrow> int \<Rightarrow> plan \<Rightarrow> int \<Rightarrow> world \<Rightarrow> world" where
  "approveAction env now tid pl admin w =
     (case createSubscription env now tid pl admin w of
        Rej e w1 \<Rightarrow> w1
      | Ret subscription w1 \<Rightarrow>
          if fails env (RequestUpdate tid) then w1
          else (case (if isRenewal subscription \<and> isGroupMember env tid w1
                      then Ret (RenewedMsg (p_name pl) (p_durationDays pl) (expiryDate subscription)) w1
                      else (case generateInviteLink env tid w1 of
                          (None, w2) \<Rightarrow>
                            Ret (ApprovedMsg (p_name pl) (p_durationDays pl) (expiryDate subscription) None) w2
                        | (Some link, w2) \<Rightarrow>
                            if fails env (SubscriptionSave (sid subscription))
                            then Rej (StoreError (SubscriptionSave (sid subscription))) w2
                            else Ret (ApprovedMsg (p_name pl) (p_durationDays pl)
                                        (expiryDate subscription) (Some link))
                                   (updateSub (sid subscription) (\<lambda>s. s\<lparr>inviteLink := Some link\<rparr>) w2))) of
              Rej e w3 \<Rightarrow> w3
            | Ret userMessage w3 \<Rightarrow>
                let w4 = snd (safeSend env tid userMessage w3);
                    w5 = awardReferralBonus env now tid w4;
                    w6 = logToChannel (ApprovalAlert tid (p_name pl) (p_durationDays pl)
                           (expiryDate subscription) (isRenewal subscription)) w5
                in if fails env (AdminLogCreate tid) then w6
                   else createLog \<lparr>adminId = admin, actionType = ''approve_request'',
                          targetUserId = Some tid,
                          logDetails = ApproveDetails (p_name pl) (p_durationDays pl)
                            (isRenewal subscription)\<rparr> w6))"

text \<open>Approvals one after the other, each in its own environment: the worlds they leave.\<close>

fun approvals :: "(env \<times> date \<times> int \<times> plan \<times> int) list \<Rightarrow> world \<Rightarrow> world list" where
  "approvals [] w = []"
| "approvals ((env, now, tid, pl, admin) # rs) w =
     approveAction env now tid pl admin w # approvals rs (approveAction env now tid pl admin w)"

definition bonusApplied :: "world \<Rightarrow> int \<Rightarrow> bool" where
  "bonusApplied w tid = (case getUser w tid of None \<Rightarrow> False | Some u \<Rightarrow> referralBonusApplied u)"

text \<open>How many times a sequence of truth values goes from false to true.\<close>

fun risingEdges :: "bool list \<Rightarrow> nat" where
  "risingEdges (a # b # bs) = (if \<not> a \<and> b then 1 else 0) + risingEdges (b # bs)"
| "risingEdges bs = 0"

section \<open>Scheduled jobs (src/services/cronService.js)\<close>

subsection \<open>reminderScheduler\<close>

definition checkpoints :: "(int \<times> flag) list" where
  "checkpoints = [(7, Day7), (3, Day3), (1, Day1), (0, Day0)]"

definition reminderStep :: "env \<Rightarrow> int \<Rightarrow> flag \<Rightarrow> subscription \<Rightarrow> world \<Rightarrow> unit res" where
  "reminderStep env days flg sub w =
     (case safeSend env (telegramId sub) (ReminderMsg days (expiryDate sub)) (emit (Visit (sid sub)) w) of
        (sent, w1) \<Rightarrow>
          if sent then
            if fails env (SubscriptionSave (sid sub)) then Rej (StoreError (SubscriptionSave (sid sub))) w1
            else Ret () (updateSub (sid sub) (\<lambda>s. s\<lparr>reminderFlags := (reminderFlags s)(flg := True)\<rparr>) w1)
          else Ret () w1)"

definition reminderDue :: "date \<Rightarrow> int \<Rightarrow> flag \<Rightarrow> subscription \<Rightarrow> bool" where
  "reminderDue now days flg s =
     (let targetStart = addDays (startOfToday now) days;
          targetEnd = setHoursEndOfDay targetStart
      in status s = Active \<and> targetStart \<le> expiryDate s \<and> expiryDate s \<le> targetEnd
         \<and> reminderFlags s flg = False)"

definition reminderCheckpoint :: "env \<Rightarrow> date \<Rightarrow> int \<times> flag \<Rightarrow> world \<Rightarrow> unit res" where
  "reminderCheckpoint env now cp w =
     (case cp of (days, flg) \<Rightarrow>
        if fails env SubscriptionFind then Rej (StoreError SubscriptionFind) w
        else forEach (reminderStep env days flg) (filter (reminderDue now days flg) (subs w)) w)"

definition reminderScheduler :: "env \<Rightarrow> date \<Rightarrow> world \<Rightarrow> unit res" where
  "reminderScheduler env now w =
     (if fails env PlanFind then Rej (StoreError PlanFind) w
      else forEach (reminderCheckpoint env now) checkpoints w)"

subsection \<open>gracePeriodHandler\<close>

definition GRACE_DAYS :: "env \<Rightarrow> int" where
  "GRACE_DAYS env = orThree (GRACE_PERIOD_DAYS env)"

text \<open>
  The body of the first loop. The keyboard argument \<^verbatim>\<open>await Plan.find(...)\<close> is evaluated
  before \<open>safeSend\<close> is called.
\<close>

definition graceEntryStep :: "env \<Rightarrow> subscription \<Rightarrow> world \<Rightarrow> unit res" where
  "graceEntryStep env sub w0 =
     (let w = emit (Visit (sid sub)) w0 in
      if fails env (SubscriptionSave (sid sub)) then Rej (StoreError (SubscriptionSave (sid sub))) w
      else let w1 = updateSub (sid sub) (\<lambda>s. s\<lparr>status := Grace, graceDaysUsed := 0\<rparr>) w in
        if fails env (UserUpdate (telegramId sub)) then Rej (StoreError (UserUpdate (telegramId sub))) w1
        else let w2 = updateUser (telegramId sub)
                   (\<lambda>u. u\<lparr>u_status := UExpired, graceDaysRemaining := Some (GRACE_DAYS env)\<rparr>) w1 in
          if fails env PlanFind then Rej (StoreError PlanFind) w2
          else Ret () (logToChannel (GraceStartedAlert (telegramId sub) (planName sub))
                 (snd (safeSend env (telegramId sub)
                    (SubscriptionExpiredMsg (expiryDate sub) (GRACE_DAYS env)) w2))))"

definition graceExpiredLog :: "int \<Rightarrow> int \<Rightarrow> adminLog" where
  "graceExpiredLog tid daysSinceExpiry =
     \<lparr>adminId = 0, actionType = ''ban_user'', targetUserId = Some tid,
      logDetails = ReasonOverdue ''Grace period expired'' daysSinceExpiry\<rparr>"

definition daysSinceExpiry :: "date \<Rightarrow> subscription \<Rightarrow> int" where
  "daysSinceExpiry today sub = (today - expiryDate sub) div msPerDay"

text \<open>The body of the second loop.\<close>

definition graceStep :: "env \<Rightarrow> date \<Rightarrow> subscription \<Rightarrow> world \<Rightarrow> unit res" where
  "graceStep env today sub w0 =
     (let w = emit (Visit (sid sub)) w0; tid = telegramId sub in
      if daysSinceExpiry today sub \<ge> GRACE_DAYS env then
        let w1 = snd (banFromGroup env tid w) in
        if fails env (SubscriptionSave (sid sub)) then Rej (StoreError (SubscriptionSave (sid sub))) w1
        else let w2 = updateSub (sid sub) (\<lambda>s. s\<lparr>status := Expired, graceDaysUsed := GRACE_DAYS env\<rparr>) w1 in
          if fails env (UserUpdate tid) then Rej (StoreError (UserUpdate tid)) w2
          else let w3 = updateUser tid (\<lambda>u. u\<lparr>u_status := UExpired, graceDaysRemaining := Some 0\<rparr>) w2;
                   w4 = snd (safeSend env tid AccessRemovedMsg w3);
                   w5 = logToChannel (UserRemovedAlert tid (daysSinceExpiry today sub)) w4 in
            if fails env (AdminLogCreate tid) then Rej (StoreError (AdminLogCreate tid)) w5
            else Ret () (createLog (graceExpiredLog tid (daysSinceExpiry today sub)) w5)
      else if daysSinceExpiry today sub = GRACE_DAYS env - 1 \<and> \<not> day2 (graceNotifications sub) then
        if fails env PlanFind then Rej (StoreError PlanFind) w
        else let w1 = snd (safeSend env tid FinalWarningMsg w) in
          if fails env (SubscriptionSave (sid sub)) then Rej (StoreError (SubscriptionSave (sid sub))) w1
          else Ret () (updateSub (sid sub)
                 (\<lambda>s. s\<lparr>graceNotifications := (graceNotifications s)\<lparr>day2 := True\<rparr>\<rparr>) w1)
      else if daysSinceExpiry today sub = 1 \<and> \<not> day1 (graceNotifications sub) then
        if fails env PlanFind then Rej (StoreError PlanFind) w
        else let w1 = snd (safeSend env tid (GraceReminderMsg (GRACE_DAYS env - 1)) w) in
          if fails env (SubscriptionSave (sid sub)) then Rej (StoreError (SubscriptionSave (sid sub))) w1
          else Ret () (updateSub (sid sub)
                 (\<lambda>s. s\<lparr>graceNotifications := (graceNotifications s)\<lparr>day1 := True\<rparr>\<rparr>) w1)
      else Ret () w)"

definition justExpired :: "date \<Rightarrow> world \<Rightarrow> subscription list" where
  "justExpired today w = filter (\<lambda>s. status s = Active \<and> expiryDate s < today) (subs w)"

definition inGrace :: "world \<Rightarrow> subscription list" where
  "inGrace w = filter (\<lambda>s. status s = Grace) (subs w)"

definition graceEntryPass :: "env \<Rightarrow> date \<Rightarrow> world \<Rightarrow> unit res" where
  "graceEntryPass env today w =
     (if fails env SubscriptionFind then Rej (StoreError SubscriptionFind) w
      else forEach (graceEntryStep env) (justExpired today w) w)"

definition inGracePass :: "env \<Rightarrow> date \<Rightarrow> world \<Rightarrow> unit res" where
  "inGracePass env today w =
     (if fails env SubscriptionFind then Rej (StoreError SubscriptionFind) w
      else forEach (graceStep env today) (inGrace w) w)"

definition gracePeriodHandler :: "env \<Rightarrow> date \<Rightarrow> world \<Rightarrow> unit res" where
  "gracePeriodHandler env now w =
     andThen (graceEntryPass env (startOfToday now) w) (\<lambda>u. inGracePass env (startOfToday now))"

subsection \<open>membershipMonitor\<close>

text \<open>A link that is \<^verbatim>\<open>null\<close> (or empty) is \<open>None\<close>.\<close>

definition monitorActiveStep :: "env \<Rightarrow> subscription \<Rightarrow> world \<Rightarrow> unit res" where
  "monitorActiveStep env sub w0 =
     (let w = emit (Visit (sid sub)) w0 in
      if \<not> isGroupMember env (telegramId sub) w then
        case generateInviteLink env (telegramId sub) w of
          (None, w1) \<Rightarrow> Ret () w1
        | (Some link, w1) \<Rightarrow>
            if fails env (SubscriptionSave (sid sub)) then Rej (StoreError (SubscriptionSave (sid sub))) w1
            else Ret () (snd (safeSend env (telegramId sub) (RejoinMsg link)
                   (updateSub (sid sub) (\<lambda>s. s\<lparr>inviteLink := Some link\<rparr>) w1)))
      else Ret () w)"

definition monitorExpiredStep :: "env \<Rightarrow> subscription \<Rightarrow> world \<Rightarrow> unit res" where
  "monitorExpiredStep env sub w0 =
     (let w = emit (Visit (sid sub)) w0 in
      if isGroupMember env (telegramId sub) w then
        Ret () (logToChannel (MonitorRemovedAlert (telegramId sub))
                 (snd (banFromGroup env (telegramId sub) w)))
      else Ret () w)"

definition activeSubs :: "date \<Rightarrow> world \<Rightarrow> subscription list" where
  "activeSubs now w = filter (\<lambda>s. status s = Active \<and> expiryDate s > now) (subs w)"

definition expiredUsers :: "world \<Rightarrow> subscription list" where
  "expiredUsers w = filter (\<lambda>s. status s = Expired \<or> status s = Cancelled) (subs w)"

definition underProvisionedPass :: "env \<Rightarrow> date \<Rightarrow> world \<Rightarrow> unit res" where
  "underProvisionedPass env now w =
     (if fails env SubscriptionFind then Rej (StoreError SubscriptionFind) w
      else forEach (monitorActiveStep env) (activeSubs now w) w)"

definition overProvisionedPass :: "env \<Rightarrow> world \<Rightarrow> unit res" where
  "overProvisionedPass env w =
     (if fails env SubscriptionFind then Rej (StoreError SubscriptionFind) w
      else forEach (monitorExpiredStep env) (expiredUsers w) w)"

definition membershipMonitor :: "env \<Rightarrow> date \<Rightarrow> world \<Rightarrow> unit res" where
  "membershipMonitor env now w =
     andThen (underProvisionedPass env now w) (\<lambda>u. overProvisionedPass env)"

section \<open>Concrete environments and worlds\<close>

text \<open>An environment in which every collaborator works, with the default configuration.\<close>

definition env0 :: env where
  "env0 = \<lparr>GRACE_PERIOD_DAYS = None, BONUS_REFERRAL_DAYS = None,
     deliver = (\<lambda>t m. Delivered), banOk = (\<lambda>t. True), memberQueryOk = (\<lambda>t. True),
     inviteLinkFor = (\<lambda>t. Some ''https://t.me/+invite''), fails = (\<lambda>op. False)\<rparr>"

text \<open>The same, but every user has blocked the bot.\<close>

definition env403 :: env where
  "env403 = env0\<lparr>deliver := (\<lambda>t m. Blocked403)\<rparr>"

definition alice :: user where
  "alice = \<lparr>uid = 1, u_telegramId = 100, u_name = ''Alice'', u_status = UInactive,
     isBlocked = False, referredBy = None, referralBonusApplied = False,
     graceDaysRemaining = None\<rparr>"

definition bob :: user where
  "bob = \<lparr>uid = 2, u_telegramId = 200, u_name = ''Bob'', u_status = UInactive,
     isBlocked = False, referredBy = Some 100, referralBonusApplied = False,
     graceDaysRemaining = None\<rparr>"

definition monthly :: plan where
  "monthly = \<lparr>p_id = 1, p_name = ''Monthly'', p_durationDays = 30\<rparr>"

definition day :: "int \<Rightarrow> date" where
  "day n = n * msPerDay"

text \<open>A subscription as \<open>createSubscription\<close> makes it, with the given id, owner, expiry and status.\<close>

definition mkSub :: "nat \<Rightarrow> int \<Rightarrow> date \<Rightarrow> sub_status \<Rightarrow> subscription" where
  "mkSub i tid expiry st = \<lparr>sid = i, userId = 0, telegramId = tid, planId = 1,
     planName = ''Monthly'', durationDays = 30, startDate = expiry - 30 * msPerDay,
     expiryDate = expiry, status = st, approvedBy = Some 9, inviteLink = None,
     reminderFlags = (\<lambda>f. False), graceDaysUsed = 0,
     graceNotifications = noGraceNotifications, isRenewal = False\<rparr>"

definition wAlice :: world where
  "wAlice = \<lparr>subs = [mkSub 1 100 (day 30) Active], users = [alice], adminLogs = [],
     members = {100}, trace = []\<rparr>"


text \<open>
  A user who has a cancelled subscription from the past and a new active one; the user
  was referred by user 100, whose own subscription is active.
\<close>

definition wCancelled :: world where
  "wCancelled = \<lparr>subs = [mkSub 1 100 (day 60) Active, mkSub 2 200 (day 10) Cancelled,
       mkSub 3 200 (day 50) Active],
     users = [alice, bob], adminLogs = [], members = {100, 200}, trace = []\<rparr>"

text \<open>
  A user redeems an invite link and joins the group: an action of the user on Telegram,
  not of the bot.
\<close>

definition joinGroup :: "int \<Rightarrow> world \<Rightarrow> world" where
  "joinGroup tid w = w\<lparr>members := insert tid (members w)\<rparr>"

definition nineAM :: "int \<Rightarrow> date" where
  "nineAM n = day n + 9 * 60 * 60 * 1000"

text \<open>
  A history: user 100 is approved for 30 days on day 0 and joins; the subscription runs
  out, the grace job runs on day 31 and on day 33 (removal); on day 50 the user is
  approved again and joins again.
\<close>

definition wStart :: world where
  "wStart = \<lparr>subs = [], users = [alice], adminLogs = [], members = {}, trace = []\<rparr>"

definition wSubscribed :: world where
  "wSubscribed = joinGroup 100 (worldOf (createSubscription env0 (day 0) 100 monthly 9 wStart))"

definition wInGrace :: world where
  "wInGrace = worldOf (gracePeriodHandler env0 (nineAM 31) wSubscribed)"

definition wRemoved :: world where
  "wRemoved = worldOf (gracePeriodHandler env0 (nineAM 33) wInGrace)"

definition wReapproved :: world where
  "wReapproved = joinGroup 100 (worldOf (createSubscription env0 (day 50) 100 monthly 9 wRemoved))"


section \<open>Reading a run\<close>

text \<open>The ids of the subscriptions visited in a stretch of the trace, in order.\<close>

fun visits :: "event list \<Rightarrow> nat list" where
  "visits [] = []"
| "visits (Visit i # es) = i # visits es"
| "visits (e # es) = visits es"

text \<open>What the first loop of \<open>gracePeriodHandler\<close> writes into a document it works on.\<close>

definition toGrace :: "subscription \<Rightarrow> subscription" where
  "toGrace s = s\<lparr>status := Grace, graceDaysUsed := 0\<rparr>"

text \<open>
  What the second loop of \<open>gracePeriodHandler\<close> writes into the document \<open>s\<close>, as decided
  from the copy \<open>sub\<close> that the query returned.
\<close>

definition graceWrite :: "env \<Rightarrow> date \<Rightarrow> subscription \<Rightarrow> subscription \<Rightarrow> subscription" where
  "graceWrite env today sub s =
     (if daysSinceExpiry today sub \<ge> GRACE_DAYS env
        then s\<lparr>status := Expired, graceDaysUsed := GRACE_DAYS env\<rparr>
      else if daysSinceExpiry today sub = GRACE_DAYS env - 1 \<and> \<not> day2 (graceNotifications sub)
        then s\<lparr>graceNotifications := (graceNotifications s)\<lparr>day2 := True\<rparr>\<rparr>
      else if daysSinceExpiry today sub = 1 \<and> \<not> day1 (graceNotifications sub)
        then s\<lparr>graceNotifications := (graceNotifications s)\<lparr>day1 := True\<rparr>\<rparr>
      else s)"


text \<open>
  What a run adds: the events and the audit entries that \<open>w'\<close> has beyond those of \<open>w\<close>.
\<close>

definition newEvents :: "world \<Rightarrow> world \<Rightarrow> event list" where
  "newEvents w w' = drop (length (trace w)) (trace w')"

definition newLogs :: "world \<Rightarrow> world \<Rightarrow> adminLog list" where
  "newLogs w w' = drop (length (adminLogs w)) (adminLogs w')"

text \<open>
  \<open>w'\<close> comes after \<open>w\<close> in a job: the trace and the audit log have only been appended to,
  no document has been added or removed, and nobody has joined the group.
\<close>

definition grows :: "world \<Rightarrow> world \<Rightarrow> bool" where
  "grows w w' =
     (take (length (trace w)) (trace w') = trace w
      \<and> take (length (adminLogs w)) (adminLogs w') = adminLogs w
      \<and> map u_telegramId (users w') = map u_telegramId (users w)
      \<and> map sid (subs w') = map sid (subs w)
      \<and> members w' \<subseteq> members w)"


text \<open>
  The state of a user's document after the removal step of the grace job: no grace days
  remain, and the status is expired, or blocked when a message to that user was answered
  with 403.
\<close>

definition removedUser :: "env \<Rightarrow> int \<Rightarrow> user option \<Rightarrow> bool" where
  "removedUser env t ou =
     (case ou of
        None \<Rightarrow> True
      | Some u \<Rightarrow> graceDaysRemaining u = Some 0
          \<and> (u_status u = UExpired \<or> (u_status u = UBlocked \<and> (\<exists>m. deliver env t m = Blocked403))))"


text \<open>
  Two users whose subscriptions ran out on day 10 and are in grace; and environments in
  which one database write fails: saving subscription 1, or writing the audit entry
  about user 100.
\<close>

definition wTwoGrace :: world where
  "wTwoGrace = \<lparr>subs = [mkSub 1 100 (day 10) Grace, mkSub 2 200 (day 10) Grace],
     users = [alice, bob], adminLogs = [], members = {100, 200}, trace = []\<rparr>"

definition envSaveFails :: env where
  "envSaveFails = env0\<lparr>fails := (\<lambda>op. op = SubscriptionSave 1)\<rparr>"

definition envAuditFails :: env where
  "envAuditFails = env0\<lparr>fails := (\<lambda>op. op = AdminLogCreate 100)\<rparr>"

text \<open>An active subscription of user 100 that ran out on day 10 and was never processed.\<close>

definition wOverdue :: world where
  "wOverdue = \<lparr>subs = [mkSub 1 100 (day 10) Active], users = [alice], adminLogs = [],
     members = {100}, trace = []\<rparr>"


text \<open>Telegram is down: no message is delivered and no ban succeeds.\<close>

definition envTelegramDown :: env where
  "envTelegramDown = env0\<lparr>deliver := (\<lambda>t m. TransientError), banOk := (\<lambda>t. False)\<rparr>"


text \<open>The Telegram group API works: membership queries and bans succeed.\<close>

definition groupOk :: "env \<Rightarrow> bool" where
  "groupOk env = (\<forall>t. banOk env t \<and> memberQueryOk env t)"

text \<open>Runs of the reconciler one after the other, each at its time and in its environment.\<close>

fun monitorRuns :: "(env \<times> date) list \<Rightarrow> world \<Rightarrow> world" where
  "monitorRuns [] w = w"
| "monitorRuns ((env, now) # rs) w = monitorRuns rs (worldOf (membershipMonitor env now w))"

text \<open>The users who own a subscription that is expired or cancelled.\<close>

definition terminalIds :: "world \<Rightarrow> int set" where
  "terminalIds w = telegramId ` set (expiredUsers w)"

text \<open>
  A world in which user 100 is in the group with an expired subscription, user 200 is
  in the group with an active one, and user 300, whose subscription is cancelled, is
  not in the group.
\<close>

definition wDrift :: world where
  "wDrift = \<lparr>subs = [mkSub 1 100 (day 10) Expired, mkSub 2 200 (day 90) Active,
       mkSub 3 300 (day 5) Cancelled],
     users = [alice, bob], adminLogs = [], members = {100, 200}, trace = []\<rparr>"


text \<open>
  What \<open>reminderScheduler\<close> writes into the document \<open>s\<close> at a checkpoint, as decided from
  the copy \<open>sub\<close> that the query returned.
\<close>

definition remindWrite :: "env \<Rightarrow> int \<Rightarrow> flag \<Rightarrow> subscription \<Rightarrow> subscription \<Rightarrow> subscription" where
  "remindWrite env days flg sub s =
     (if deliver env (telegramId sub) (ReminderMsg days (expiryDate sub)) = Delivered
      then s\<lparr>reminderFlags := (reminderFlags s)(flg := True)\<rparr> else s)"


text \<open>
  One of the database statements that the second loop of \<open>gracePeriodHandler\<close> itself runs
  for the candidate \<open>sub\<close> throws: in the removal branch \<^verbatim>\<open>sub.save()\<close>,
  \<^verbatim>\<open>User.findOneAndUpdate\<close> and \<^verbatim>\<open>AdminLog.create\<close>; in the two notification branches
  \<^verbatim>\<open>Plan.find\<close> (for the keyboard) and \<^verbatim>\<open>sub.save()\<close>. The statements inside
  \<open>handleBlockedUser\<close> are not among them.
\<close>

definition ownStoreError :: "env \<Rightarrow> date \<Rightarrow> subscription \<Rightarrow> bool" where
  "ownStoreError env today sub =
     (if daysSinceExpiry today sub \<ge> GRACE_DAYS env
        then fails env (SubscriptionSave (sid sub)) \<or> fails env (UserUpdate (telegramId sub))
          \<or> fails env (AdminLogCreate (telegramId sub))
      else if daysSinceExpiry today sub = GRACE_DAYS env - 1 \<and> \<not> day2 (graceNotifications sub)
        then fails env PlanFind \<or> fails env (SubscriptionSave (sid sub))
      else if daysSinceExpiry today sub = 1 \<and> \<not> day1 (graceNotifications sub)
        then fails env PlanFind \<or> fails env (SubscriptionSave (sid sub))
      else False)"

text \<open>
  Two users on their first day of grace (expiry on day 19, seen on day 20), who have both
  blocked the bot, while updating the document of user 100 throws.
\<close>

definition wTwoFirstDay :: world where
  "wTwoFirstDay = \<lparr>subs = [mkSub 1 100 (day 19) Grace, mkSub 2 200 (day 19) Grace],
     users = [alice, bob], adminLogs = [], members = {100, 200}, trace = []\<rparr>"

definition envBlockedUpdateFails :: env where
  "envBlockedUpdateFails = env403\<lparr>fails := (\<lambda>op. op = UserUpdate 100)\<rparr>"


text \<open>
  Users 100 and 200 are registered and user 200 was referred by user 100. User 100 is
  approved for 30 days on day 0 and joins the group. Later user 100 blocks the bot: every
  message to user 100 is answered with 403.
\<close>

definition wTwoUsers :: world where
  "wTwoUsers = \<lparr>subs = [], users = [alice, bob], adminLogs = [], members = {}, trace = []\<rparr>"

definition wReferrerActive :: world where
  "wReferrerActive = joinGroup 100 (worldOf (createSubscription env0 (day 0) 100 monthly 9 wTwoUsers))"

definition envReferrerBlocked :: env where
  "envReferrerBlocked = env0\<lparr>deliver := (\<lambda>t m. if t = 100 then Blocked403 else Delivered)\<rparr>"


section \<open>Plans (src/models/Plan.js, src/services/adminService.js)\<close>

text \<open>The two files are src/unnamed/part_001 and src/unnamed/part_005.\<close>

datatype plan_err = PlanValidationError | PlanNotFound nat

text \<open>
  The validators of the Plan schema, for the fields the model holds: \<^verbatim>\<open>name\<close> is required,
  \<^verbatim>\<open>durationDays\<close> is required with \<^verbatim>\<open>min: 1\<close>.
\<close>

definition planValid :: "plan \<Rightarrow> bool" where
  "planValid p = (p_name p \<noteq> [] \<and> 1 \<le> p_durationDays p)"

text \<open>\<^verbatim>\<open>createPlan\<close>: \<^verbatim>\<open>Plan.create\<close> validates the document before storing it.\<close>

definition createPlan :: "plan list \<Rightarrow> string \<Rightarrow> int \<Rightarrow> plan_err + plan \<times> plan list" where
  "createPlan plans name days =
     (let p = \<lparr>p_id = Suc (foldr max (map p_id plans) 0), p_name = name, p_durationDays = days\<rparr>
      in if planValid p then Inr (p, plans @ [p]) else Inl PlanValidationError)"

text \<open>
  The \<^verbatim>\<open>{ [field]: value }\<close> object that \<^verbatim>\<open>/editplan id|field|value\<close> builds, for the fields the model
  holds; a numeric \<^verbatim>\<open>value\<close> has gone through \<^verbatim>\<open>parseFloat\<close>.
\<close>

datatype plan_update = SetName string | SetDurationDays int

primrec applyUpdate :: "plan_update \<Rightarrow> plan \<Rightarrow> plan" where
  "applyUpdate (SetName n) p = p\<lparr>p_name := n\<rparr>"
| "applyUpdate (SetDurationDays d) p = p\<lparr>p_durationDays := d\<rparr>"

text \<open>
  \<^verbatim>\<open>updatePlan\<close>: \<^verbatim>\<open>Plan.findByIdAndUpdate(planId, updates, { new: true })\<close>. The option
  \<^verbatim>\<open>runValidators\<close> is not given, so the validators of the schema do not run; the updated
  document is returned, and a missing plan throws.
\<close>

definition updatePlan :: "plan list \<Rightarrow> nat \<Rightarrow> plan_update \<Rightarrow> plan_err + plan \<times> plan list" where
  "updatePlan plans pid updates =
     (case find (\<lambda>p. p_id p = pid) plans of
        None \<Rightarrow> Inl (PlanNotFound pid)
      | Some p \<Rightarrow> Inr (applyUpdate updates p,
          updateFirst (\<lambda>p. p_id p = pid) (applyUpdate updates) plans))"


section \<open>Reading an approval\<close>

text \<open>
  The count that the claim about the referral bonus asks for: the user's subscriptions
  in the states active, grace, expired and cancelled.
\<close>

definition historyCount :: "world \<Rightarrow> int \<Rightarrow> nat" where
  "historyCount w tid =
     length (filter (\<lambda>s. telegramId s = tid \<and> status s \<in> {Active, Grace, Expired, Cancelled}) (subs w))"

text \<open>
  What awarding a referral bonus for the subscriber \<open>tid\<close> leaves behind between \<open>w\<close> and
  \<open>w'\<close>: the flag of the subscriber has been set, or a \<^verbatim>\<open>referral_bonus\<close> audit entry has
  been written, or a referral notice has been sent, or a subscription of another user has
  been changed.
\<close>

fun isReferralNotice :: "event \<Rightarrow> bool" where
  "isReferralNotice (SendMessage t (ReferralBonusMsg n d)) = True"
| "isReferralNotice e = False"

definition bonusAwarded :: "world \<Rightarrow> world \<Rightarrow> int \<Rightarrow> bool" where
  "bonusAwarded w w' tid =
     ((\<not> bonusApplied w tid \<and> bonusApplied w' tid)
      \<or> list_ex (\<lambda>l. actionType l = ''referral_bonus'') (newLogs w w')
      \<or> list_ex isReferralNotice (newEvents w w')
      \<or> filter (\<lambda>s. telegramId s \<noteq> tid) (subs w') \<noteq> filter (\<lambda>s. telegramId s \<noteq> tid) (subs w))"

text \<open>The owner and the state of every subscription, in the order of the collection.\<close>

definition history :: "world \<Rightarrow> (int \<times> sub_status) list" where
  "history w = map (\<lambda>s. (telegramId s, status s)) (subs w)"

text \<open>What the referral rule reads of a user.\<close>

definition referralView :: "user \<Rightarrow> int \<times> int option \<times> bool" where
  "referralView u = (u_telegramId u, referredBy u, referralBonusApplied u)"

text \<open>
  Between \<open>w\<close> and \<open>w'\<close> nothing has happened that has to do with a referral bonus for
  \<open>tid\<close>: no referral notice and no \<^verbatim>\<open>referral_bonus\<close> entry has been added, what the
  referral rule reads of the users is the same, and so are the subscriptions of the other
  users.
\<close>

definition quiet :: "int \<Rightarrow> world \<Rightarrow> world \<Rightarrow> bool" where
  "quiet tid w w' =
     ((\<exists>es. trace w' = trace w @ es \<and> \<not> list_ex isReferralNotice es)
      \<and> (\<exists>ls. adminLogs w' = adminLogs w @ ls \<and> \<not> list_ex (\<lambda>l. actionType l = ''referral_bonus'') ls)
      \<and> map referralView (users w') = map referralView (users w)
      \<and> filter (\<lambda>s. telegramId s \<noteq> tid) (subs w') = filter (\<lambda>s. telegramId s \<noteq> tid) (subs w))"

text \<open>
  User 200, referred by user 100, comes back: an earlier subscription of user 200 has
  expired. User 100 has an active subscription.
\<close>

definition wReturning :: world where
  "wReturning = \<lparr>subs = [mkSub 1 100 (day 60) Active, mkSub 2 200 (day 5) Expired],
     users = [alice, bob], adminLogs = [], members = {100}, trace = []\<rparr>"


text \<open>
  The shape of the Subscription collection that the program keeps: the ids are distinct,
  no document is cancelled, and no user has more than one document that is active or in
  grace.
\<close>

definition wellFormed :: "world \<Rightarrow> bool" where
  "wellFormed w =
     (distinct (map sid (subs w))
      \<and> (\<forall>s\<in>set (subs w). status s \<noteq> Cancelled)
      \<and> (\<forall>t\<in>set (map telegramId (subs w)).
            length (filter (\<lambda>s. telegramId s = t \<and> (status s = Active \<or> status s = Grace)) (subs w)) \<le> 1))"

text \<open>The id, the owner and the state of every subscription, in the order of the collection.\<close>

definition shape :: "world \<Rightarrow> (nat \<times> int \<times> sub_status) list" where
  "shape w = map (\<lambda>s. (sid s, telegramId s, status s)) (subs w)"


section \<open>Basic facts\<close>

lemma storeOk_fails [simp]: "storeOk env \<Longrightarrow> fails env op = False"
  by (simp add: storeOk_def)

lemma andThen_Ret [simp]: "andThen (Ret x w) k = k x w"
  by (simp add: andThen_def)

lemma andThen_Rej [simp]: "andThen (Rej e w) k = Rej e w"
  by (simp add: andThen_def)

lemma find_updateFirst_keep:
  assumes "\<And>x. P x \<Longrightarrow> P (f x)"
  shows "find P (updateFirst P f xs) = map_option f (find P xs)"
  using assms by (induction xs) auto

lemma find_updateFirst_other:
  assumes "\<And>x. Q (f x) = Q x" and "\<And>x. Q x \<Longrightarrow> \<not> P x"
  shows "find Q (updateFirst P f xs) = find Q xs"
  using assms by (induction xs) auto

lemma map_updateFirst:
  assumes "\<And>x. g (f x) = g x"
  shows "map g (updateFirst P f xs) = map g xs"
  using assms by (induction xs) auto

lemma length_updateFirst [simp]: "length (updateFirst P f xs) = length xs"
  by (induction xs) auto

lemma emit_fields [simp]:
  "subs (emit e w) = subs w" "users (emit e w) = users w" "adminLogs (emit e w) = adminLogs w"
  "members (emit e w) = members w" "trace (emit e w) = trace w @ [e]"
  by (simp_all add: emit_def)

lemma updateUser_fields [simp]:
  "subs (updateUser t f w) = subs w" "adminLogs (updateUser t f w) = adminLogs w"
  "members (updateUser t f w) = members w" "trace (updateUser t f w) = trace w"
  "users (updateUser t f w) = updateFirst (\<lambda>u. u_telegramId u = t) f (users w)"
  by (simp_all add: updateUser_def)

lemma updateSub_fields [simp]:
  "users (updateSub i f w) = users w" "adminLogs (updateSub i f w) = adminLogs w"
  "members (updateSub i f w) = members w" "trace (updateSub i f w) = trace w"
  "subs (updateSub i f w) = updateFirst (\<lambda>s. sid s = i) f (subs w)"
  by (simp_all add: updateSub_def)

lemma createLog_fields [simp]:
  "subs (createLog l w) = subs w" "users (createLog l w) = users w"
  "members (createLog l w) = members w" "trace (createLog l w) = trace w"
  "adminLogs (createLog l w) = adminLogs w @ [l]"
  by (simp_all add: createLog_def)

lemma logToChannel_fields [simp]:
  "subs (logToChannel m w) = subs w" "users (logToChannel m w) = users w"
  "adminLogs (logToChannel m w) = adminLogs w" "members (logToChannel m w) = members w"
  "trace (logToChannel m w) = trace w @ [ChannelPost m]"
  by (simp_all add: logToChannel_def)

lemma getUser_cong: "users w' = users w \<Longrightarrow> getUser w' t = getUser w t"
  by (simp add: getUser_def)

lemma getSub_cong: "subs w' = subs w \<Longrightarrow> getSub w' i = getSub w i"
  by (simp add: getSub_def)

lemma getUser_updateUser:
  assumes "\<And>u. u_telegramId (f u) = u_telegramId u"
  shows "getUser (updateUser t f w) t' = (if t' = t then map_option f (getUser w t) else getUser w t')"
proof (cases "t' = t")
  case True
  have "find (\<lambda>u. u_telegramId u = t) (updateFirst (\<lambda>u. u_telegramId u = t) f (users w))
      = map_option f (find (\<lambda>u. u_telegramId u = t) (users w))"
    by (rule find_updateFirst_keep) (simp add: assms)
  with True show ?thesis by (simp add: getUser_def)
next
  case False
  have "find (\<lambda>u. u_telegramId u = t') (updateFirst (\<lambda>u. u_telegramId u = t) f (users w))
      = find (\<lambda>u. u_telegramId u = t') (users w)"
    by (rule find_updateFirst_other) (use False assms in auto)
  with False show ?thesis by (simp add: getUser_def)
qed

lemma getSub_updateSub:
  assumes "\<And>s. sid (f s) = sid s"
  shows "getSub (updateSub i f w) j = (if j = i then map_option f (getSub w i) else getSub w j)"
proof (cases "j = i")
  case True
  have "find (\<lambda>s. sid s = i) (updateFirst (\<lambda>s. sid s = i) f (subs w))
      = map_option f (find (\<lambda>s. sid s = i) (subs w))"
    by (rule find_updateFirst_keep) (simp add: assms)
  with True show ?thesis by (simp add: getSub_def)
next
  case False
  have "find (\<lambda>s. sid s = j) (updateFirst (\<lambda>s. sid s = i) f (subs w))
      = find (\<lambda>s. sid s = j) (subs w)"
    by (rule find_updateFirst_other) (use False assms in auto)
  with False show ?thesis by (simp add: getSub_def)
qed

lemma updateFirst_distinct:
  assumes "distinct (map k xs)"
  shows "updateFirst (\<lambda>x. k x = i) f xs = map (\<lambda>x. if k x = i then f x else x) xs"
  using assms
proof (induction xs)
  case Nil
  then show ?case by simp
next
  case (Cons x xs)
  show ?case
  proof (cases "k x = i")
    case True
    with Cons.prems have "\<forall>y\<in>set xs. k y \<noteq> i" by (auto simp: image_iff)
    then have "map (\<lambda>x. if k x = i then f x else x) xs = xs"
      by (induction xs) auto
    with True show ?thesis by simp
  next
    case False
    with Cons show ?thesis by simp
  qed
qed

lemma find_distinct_mem:
  assumes "distinct (map k xs)" and "x \<in> set xs"
  shows "find (\<lambda>y. k y = k x) xs = Some x"
  using assms by (induction xs) (auto simp: rev_image_eqI)

lemma handleBlockedUser_fields [simp]:
  "subs (handleBlockedUser env t w) = subs w" "members (handleBlockedUser env t w) = members w"
  by (simp_all add: handleBlockedUser_def Let_def)

lemma safeSend_fields [simp]:
  "subs (snd (safeSend env t m w)) = subs w" "members (snd (safeSend env t m w)) = members w"
  by (simp_all add: safeSend_def Let_def split: delivery.splits)

lemma banFromGroup_fields [simp]:
  "subs (snd (banFromGroup env t w)) = subs w" "users (snd (banFromGroup env t w)) = users w"
  "adminLogs (snd (banFromGroup env t w)) = adminLogs w"
  "trace (snd (banFromGroup env t w)) = trace w @ [BanChatMember t]"
  "members (snd (banFromGroup env t w)) = (if banOk env t then members w - {t} else members w)"
  by (simp_all add: banFromGroup_def Let_def)

section \<open>Blocked recipients\<close>

text \<open>
  When the Telegram API answers 403 to a message sent through \<open>safeSend\<close>, the helper
  returns \<^verbatim>\<open>false\<close> and, the database working, runs the blocked-user procedure: the
  user's document gets \<^verbatim>\<open>isBlocked = true\<close> and \<^verbatim>\<open>status = 'blocked'\<close> (other users are
  untouched), one audit entry for that user with the reason for a blocked recipient
  (the source's text is "Bot blocked by user (403)") is appended, and an alert is posted
  to the log channel right after the failed send.
\<close>

lemma safeSend_blocked:
  assumes "deliver env tid msg = Blocked403" and "storeOk env"
  shows "fst (safeSend env tid msg w) = False
    \<and> getUser (snd (safeSend env tid msg w)) tid
        = map_option (\<lambda>u. u\<lparr>isBlocked := True, u_status := UBlocked\<rparr>) (getUser w tid)
    \<and> (\<forall>t. t \<noteq> tid \<longrightarrow> getUser (snd (safeSend env tid msg w)) t = getUser w t)
    \<and> adminLogs (snd (safeSend env tid msg w)) = adminLogs w @
        [\<lparr>adminId = 0, actionType = ''ban_user'', targetUserId = Some tid,
          logDetails = Reason ''Bot blocked by user (403)''\<rparr>]
    \<and> trace (snd (safeSend env tid msg w)) = trace w @
        [SendMessage tid msg, ChannelPost (BotBlockedAlert tid)]"
proof -
  have same: "find (\<lambda>u. u_telegramId u = tid)
      (updateFirst (\<lambda>u. u_telegramId u = tid) (\<lambda>u. u\<lparr>isBlocked := True, u_status := UBlocked\<rparr>) (users w))
    = map_option (\<lambda>u. u\<lparr>isBlocked := True, u_status := UBlocked\<rparr>) (find (\<lambda>u. u_telegramId u = tid) (users w))"
    by (rule find_updateFirst_keep) simp
  have other: "\<And>t. t \<noteq> tid \<Longrightarrow> find (\<lambda>u. u_telegramId u = t)
      (updateFirst (\<lambda>u. u_telegramId u = tid) (\<lambda>u. u\<lparr>isBlocked := True, u_status := UBlocked\<rparr>) (users w))
    = find (\<lambda>u. u_telegramId u = t) (users w)"
    by (rule find_updateFirst_other) auto
  show ?thesis
    using assms same other
    by (simp add: safeSend_def handleBlockedUser_def Let_def emit_def updateUser_def
        createLog_def blockedLog_def getUser_def)
qed


lemma safeSend_blocked_example:
  "deliver env403 100 AccessRemovedMsg = Blocked403 \<and> storeOk env403
   \<and> fst (safeSend env403 100 AccessRemovedMsg wAlice) = False
   \<and> getUser (snd (safeSend env403 100 AccessRemovedMsg wAlice)) 100
        = Some (alice\<lparr>isBlocked := True, u_status := UBlocked\<rparr>)
   \<and> adminLogs (snd (safeSend env403 100 AccessRemovedMsg wAlice))
        = [\<lparr>adminId = 0, actionType = ''ban_user'', targetUserId = Some 100,
            logDetails = Reason ''Bot blocked by user (403)''\<rparr>]
   \<and> trace (snd (safeSend env403 100 AccessRemovedMsg wAlice))
        = [SendMessage 100 AccessRemovedMsg, ChannelPost (BotBlockedAlert 100)]"
proof -
  have h1: "deliver env403 100 AccessRemovedMsg = Blocked403"
    by (simp add: env403_def)
  have h2: "storeOk env403"
    by (simp add: storeOk_def env403_def env0_def)
  show ?thesis
    using h1 h2 safeSend_blocked [OF h1 h2, of wAlice]
    by (simp add: wAlice_def getUser_def alice_def)
qed

section \<open>Renewal\<close>

text \<open>
  When the user exists and \<open>createSubscription\<close> finds a subscription of that user with
  status active or grace, and the plan's \<^verbatim>\<open>durationDays\<close> is not negative (what the
  validator \<^verbatim>\<open>min: 1\<close> of the Plan schema asks for, where it runs), the call renews the
  document it found in place: no document is added,
  the other documents are untouched, the renewed one is active, and its new expiry is
  \<^verbatim>\<open>durationDays\<close> days after the later of the old expiry and the current time, hence
  not before either.
\<close>

lemma createSubscription_renewal:
  assumes "storeOk env"
    and "distinct (map sid (subs w))"
    and "getUser w tid = Some u"
    and "find (\<lambda>s. telegramId s = tid \<and> (status s = Active \<or> status s = Grace)) (subs w) = Some existingSub"
    and "0 \<le> p_durationDays pl"
  shows "\<exists>r w'. createSubscription env now tid pl admin w = Ret r w'
      \<and> map sid (subs w') = map sid (subs w)
      \<and> getSub w' (sid existingSub) = Some r
      \<and> status r = Active \<and> isRenewal r
      \<and> expiryDate r = addDays (max (expiryDate existingSub) now) (p_durationDays pl)
      \<and> max (expiryDate existingSub) now \<le> expiryDate r
      \<and> (\<forall>i. i \<noteq> sid existingSub \<longrightarrow> getSub w' i = getSub w i)"
proof -
  let ?f = "renew now pl admin existingSub"
  let ?w1 = "updateSub (sid existingSub) ?f w"
  let ?w' = "updateUser tid (\<lambda>u. u\<lparr>u_status := UActive, graceDaysRemaining := None\<rparr>) ?w1"
  have sidf: "\<And>s. sid (?f s) = sid s"
    by (simp add: renew_def Let_def)
  have run: "createSubscription env now tid pl admin w = Ret (?f existingSub) ?w'"
    using assms(1,3,4) by (simp add: createSubscription_def Let_def)
  from assms(4) have "existingSub \<in> set (subs w)"
    by (auto simp: find_Some_iff)
  with assms(2) have first: "getSub w (sid existingSub) = Some existingSub"
    unfolding getSub_def by (rule find_distinct_mem)
  have look: "\<And>j. getSub ?w' j = (if j = sid existingSub then map_option ?f (getSub w (sid existingSub)) else getSub w j)"
    using getSub_updateSub [of ?f "sid existingSub" w, OF sidf]
    by (simp add: getSub_def)
  have ids: "map sid (subs ?w') = map sid (subs w)"
    by (simp add: map_updateFirst sidf)
  have "0 \<le> p_durationDays pl * msPerDay"
    using assms(5) by (simp add: msPerDay_def)
  then have grow: "max (expiryDate existingSub) now \<le> expiryDate (?f existingSub)"
    by (simp add: renew_def Let_def addDays_def max_def)
  have ex: "expiryDate (?f existingSub) = addDays (max (expiryDate existingSub) now) (p_durationDays pl)"
    by (simp add: renew_def Let_def max_def)
  have st: "status (?f existingSub) = Active \<and> isRenewal (?f existingSub)"
    by (simp add: renew_def Let_def)
  show ?thesis
    using run ids look first grow ex st by simp
qed

lemma createSubscription_renewal_example:
  "storeOk env0 \<and> distinct (map sid (subs wAlice)) \<and> getUser wAlice 100 = Some alice
   \<and> find (\<lambda>s. telegramId s = 100 \<and> (status s = Active \<or> status s = Grace)) (subs wAlice)
        = Some (mkSub 1 100 (day 30) Active)
   \<and> 0 \<le> p_durationDays monthly
   \<and> (\<exists>r w'. createSubscription env0 (day 20) 100 monthly 9 wAlice = Ret r w'
        \<and> map sid (subs w') = [1] \<and> getSub w' 1 = Some r \<and> status r = Active
        \<and> expiryDate r = day 60 \<and> max (day 30) (day 20) \<le> expiryDate r)"
proof -
  have h1: "storeOk env0"
    by (simp add: storeOk_def env0_def)
  have h2: "distinct (map sid (subs wAlice))"
    by (simp add: wAlice_def)
  have h3: "getUser wAlice 100 = Some alice"
    by (simp add: wAlice_def getUser_def alice_def)
  have h4: "find (\<lambda>s. telegramId s = 100 \<and> (status s = Active \<or> status s = Grace)) (subs wAlice)
        = Some (mkSub 1 100 (day 30) Active)"
    by (simp add: wAlice_def mkSub_def)
  have h5: "0 \<le> p_durationDays monthly"
    by (simp add: monthly_def)
  have e: "expiryDate (mkSub 1 100 (day 30) Active) = day 30" "sid (mkSub 1 100 (day 30) Active) = 1"
    by (simp_all add: mkSub_def)
  have a: "addDays (max (day 30) (day 20)) (p_durationDays monthly) = day 60"
    by (simp add: addDays_def day_def monthly_def msPerDay_def)
  have s: "map sid (subs wAlice) = [1]"
    by (simp add: wAlice_def mkSub_def)
  from createSubscription_renewal [OF h1 h2 h3 h4 h5, of "day 20" 9]
  obtain r w' where "createSubscription env0 (day 20) 100 monthly 9 wAlice = Ret r w'"
    and "map sid (subs w') = [1]" and "getSub w' 1 = Some r" and "status r = Active"
    and "expiryDate r = day 60" and "max (day 30) (day 20) \<le> expiryDate r"
    unfolding e a s by auto
  with h1 h2 h3 h4 h5 show ?thesis
    by simp
qed

section \<open>Evaluation on concrete worlds\<close>

lemmas prim_defs = emit_def updateUser_def updateSub_def createLog_def getUser_def getSub_def
  safeSend_def handleBlockedUser_def blockedLog_def logToChannel_def banFromGroup_def
  isGroupMember_def generateInviteLink_def Let_def

lemmas date_defs = day_def nineAM_def msPerDay_def addDays_def startOfToday_def setHoursEndOfDay_def

lemmas cfg_defs = env0_def env403_def orThree_def GRACE_DAYS_def BONUS_DAYS_def

lemmas grace_defs = gracePeriodHandler_def graceEntryPass_def inGracePass_def justExpired_def
  inGrace_def graceEntryStep_def graceStep_def daysSinceExpiry_def graceExpiredLog_def

lemmas monitor_defs = membershipMonitor_def underProvisionedPass_def overProvisionedPass_def
  activeSubs_def expiredUsers_def monitorActiveStep_def monitorExpiredStep_def

lemmas create_defs = createSubscription_def renew_def freshSid_def noGraceNotifications_def

lemmas referral_defs = awardReferralBonus_def markBonusApplied_def subCount_def referralLog_def


section \<open>Referral bonus: which subscriptions are counted\<close>

text \<open>
  \<open>awardReferralBonus\<close> counts the user's active and expired subscriptions only. The
  schema also has the state cancelled, which no code of the repository writes. Were
  there such a document, it would not be counted: user 200 below has a cancelled and an
  active subscription, the count of the code is 1, and the bonus is awarded.
\<close>

lemma awardReferralBonus_cancelled_not_counted:
  "length (filter (\<lambda>s. telegramId s = 200 \<and> status s \<in> {Active, Grace, Expired, Cancelled})
      (subs wCancelled)) = 2
   \<and> getUser wCancelled 200 = Some bob \<and> referredBy bob = Some 100 \<and> \<not> referralBonusApplied bob
   \<and> map expiryDate (subs wCancelled) = [day 60, day 10, day 50]
   \<and> map expiryDate (subs (awardReferralBonus env0 (day 20) 200 wCancelled)) = [day 63, day 10, day 50]
   \<and> map referralBonusApplied (users (awardReferralBonus env0 (day 20) 200 wCancelled)) = [False, True]
   \<and> adminLogs (awardReferralBonus env0 (day 20) 200 wCancelled)
       = [\<lparr>adminId = 0, actionType = ''referral_bonus'', targetUserId = Some 100,
           logDetails = ReferralBonus 200 3\<rparr>]
   \<and> trace (awardReferralBonus env0 (day 20) 200 wCancelled)
       = [SendMessage 100 (ReferralBonusMsg ''Bob'' 3)]"
  by (simp add: wCancelled_def mkSub_def alice_def bob_def referral_defs prim_defs date_defs cfg_defs)

section \<open>Reconciliation against an old terminal record\<close>

text \<open>
  C9. In the world reached by the history \<open>wReapproved\<close> (approval, expiry, grace, removal,
  second approval, all done by the functions of the program), user 100 has the expired
  document 1 and the active document 2, which is valid until day 80, and is in the group.
  The reconciler run on day 51 visits the active document (the user is present, nothing
  to do), then the expired document 1 of the same user, finds the user in the group and
  bans them: the user is no longer a member although their active subscription has not
  expired.
\<close>

theorem monitor_removes_entitled_user:
  "map (\<lambda>s. (sid s, telegramId s, status s, expiryDate s)) (subs wReapproved)
     = [(1, 100, Expired, day 30), (2, 100, Active, day 80)]
   \<and> 100 \<in> members wReapproved
   \<and> resolved (membershipMonitor env0 (day 51) wReapproved)
   \<and> map (\<lambda>s. (sid s, telegramId s, status s, expiryDate s))
        (subs (worldOf (membershipMonitor env0 (day 51) wReapproved)))
     = [(1, 100, Expired, day 30), (2, 100, Active, day 80)]
   \<and> day 51 < day 80
   \<and> 100 \<notin> members (worldOf (membershipMonitor env0 (day 51) wReapproved))
   \<and> trace (worldOf (membershipMonitor env0 (day 51) wReapproved))
     = trace wReapproved @ [Visit 2, Visit 1, BanChatMember 100, ChannelPost (MonitorRemovedAlert 100)]"
  by (simp add: wReapproved_def wRemoved_def wInGrace_def wSubscribed_def wStart_def joinGroup_def
      alice_def monthly_def create_defs grace_defs monitor_defs prim_defs date_defs cfg_defs)


section \<open>Referral bonus: the flag\<close>

lemma getUser_frame [simp]:
  "getUser (emit e w) t = getUser w t" "getUser (updateSub i f w) t = getUser w t"
  "getUser (createLog l w) t = getUser w t" "getUser (logToChannel m w) t = getUser w t"
  "getUser (w\<lparr>subs := ss\<rparr>) t = getUser w t"
  by (simp_all add: getUser_def)

lemma getSub_frame [simp]:
  "getSub (emit e w) i = getSub w i" "getSub (updateUser t f w) i = getSub w i"
  "getSub (createLog l w) i = getSub w i" "getSub (logToChannel m w) i = getSub w i"
  by (simp_all add: getSub_def)

lemma bonusApplied_frame [simp]:
  "bonusApplied (emit e w) t = bonusApplied w t" "bonusApplied (updateSub i f w) t = bonusApplied w t"
  "bonusApplied (createLog l w) t = bonusApplied w t" "bonusApplied (logToChannel m w) t = bonusApplied w t"
  "bonusApplied (w\<lparr>subs := ss\<rparr>) t = bonusApplied w t"
  by (simp_all add: bonusApplied_def)

lemma bonusApplied_updateUser:
  assumes "\<And>u. u_telegramId (f u) = u_telegramId u"
    and "\<And>u. referralBonusApplied u \<Longrightarrow> referralBonusApplied (f u)"
    and "bonusApplied w t"
  shows "bonusApplied (updateUser x f w) t"
  using assms(2,3) getUser_updateUser [of f x w t, OF assms(1)]
  by (auto simp: bonusApplied_def split: option.splits if_splits)

lemma bonusApplied_handleBlockedUser:
  "bonusApplied w t \<Longrightarrow> bonusApplied (handleBlockedUser env x w) t"
  by (simp add: handleBlockedUser_def Let_def bonusApplied_updateUser)

lemma bonusApplied_safeSend:
  "bonusApplied w t \<Longrightarrow> bonusApplied (snd (safeSend env x m w)) t"
  by (simp add: safeSend_def Let_def bonusApplied_handleBlockedUser split: delivery.splits)

lemma bonusApplied_markBonusApplied:
  "bonusApplied w t \<Longrightarrow> bonusApplied (markBonusApplied env x r w) t"
  by (simp add: markBonusApplied_def Let_def bonusApplied_updateUser)

lemma bonusApplied_awardReferralBonus:
  "bonusApplied w t \<Longrightarrow> bonusApplied (awardReferralBonus env now x w) t"
  by (simp add: awardReferralBonus_def bonusApplied_markBonusApplied split: option.splits)

lemma bonusApplied_createSubscription:
  "bonusApplied w t \<Longrightarrow> bonusApplied (worldOf (createSubscription env now x pl a w)) t"
  by (simp add: createSubscription_def Let_def bonusApplied_updateUser split: option.splits)

lemma bonusApplied_approveAction:
  assumes "bonusApplied w t"
  shows "bonusApplied (approveAction env now x pl a w) t"
proof (cases "createSubscription env now x pl a w")
  case (Rej e w1)
  with bonusApplied_createSubscription [OF assms, of env now x pl a]
  show ?thesis by (simp add: approveAction_def)
next
  case (Ret subscription w1)
  with bonusApplied_createSubscription [OF assms, of env now x pl a]
  have w1: "bonusApplied w1 t" by simp
  show ?thesis
    using w1 Ret
    by (simp add: approveAction_def Let_def generateInviteLink_def
        bonusApplied_awardReferralBonus bonusApplied_safeSend split: option.splits)
qed

lemma risingEdges_True: "\<forall>b\<in>set bs. b \<Longrightarrow> risingEdges bs = 0"
  by (induction bs rule: risingEdges.induct) auto

lemma approvals_stay_applied:
  "bonusApplied w t \<Longrightarrow> \<forall>x\<in>set (approvals rs w). bonusApplied x t"
proof (induction rs arbitrary: w)
  case Nil
  then show ?case by simp
next
  case (Cons r rs)
  obtain env now x pl a where r: "r = (env, now, x, pl, a)"
    by (cases r) auto
  from Cons.prems have "bonusApplied (approveAction env now x pl a w) t"
    by (rule bonusApplied_approveAction)
  with Cons.IH [of "approveAction env now x pl a w"] r show ?case by simp
qed

lemma approvals_risingEdges:
  "risingEdges (map (\<lambda>x. bonusApplied x t) (w # approvals rs w)) \<le> 1"
proof (induction rs arbitrary: w)
  case Nil
  then show ?case by simp
next
  case (Cons r rs)
  obtain env now x pl a where r: "r = (env, now, x, pl, a)"
    by (cases r) auto
  let ?w' = "approveAction env now x pl a w"
  show ?case
  proof (cases "bonusApplied ?w' t")
    case True
    then have "\<forall>b\<in>set (map (\<lambda>x. bonusApplied x t) (?w' # approvals rs ?w')). b"
      using approvals_stay_applied [of ?w' t rs] by simp
    then have "risingEdges (map (\<lambda>x. bonusApplied x t) (?w' # approvals rs ?w')) = 0"
      by (rule risingEdges_True)
    with r show ?thesis by simp
  next
    case False
    with Cons.IH [of ?w'] r show ?thesis by simp
  qed
qed

text \<open>
  C5. Let the approved user have a referrer (\<^verbatim>\<open>referredBy\<close> set, to the id of an existing
  user), \<^verbatim>\<open>referralBonusApplied = false\<close>, and pass the first-subscription check of the
  code (at most one active or expired subscription). Then, the database working,
  \<open>awardReferralBonus\<close> sets the flag on that user and appends the audit entry, whether
  or not it found an active, unexpired subscription of the referrer. And along any
  sequence of approvals, whatever the environments, the flag of any user goes from false
  to true at most once.
\<close>

theorem awardReferralBonus_sets_flag_once:
  assumes "storeOk env"
    and "getUser w tid = Some newUser" and "referredBy newUser = Some r" and "r \<noteq> 0"
    and "\<not> referralBonusApplied newUser"
    and "subCount w tid \<le> 1"
    and "getUser w r = Some referrer"
  shows "getUser (awardReferralBonus env now tid w) tid = Some (newUser\<lparr>referralBonusApplied := True\<rparr>)
     \<and> adminLogs (awardReferralBonus env now tid w) = adminLogs w @
         [\<lparr>adminId = 0, actionType = ''referral_bonus'', targetUserId = Some r,
           logDetails = ReferralBonus tid (BONUS_DAYS env)\<rparr>]
     \<and> (\<forall>rs t. risingEdges (map (\<lambda>x. bonusApplied x t) (w # approvals rs w)) \<le> 1)"
proof -
  from assms(7) have r: "u_telegramId referrer = r"
    by (auto simp: getUser_def find_Some_iff)
  have mark: "getUser (markBonusApplied env tid r w1) tid = Some (newUser\<lparr>referralBonusApplied := True\<rparr>)
      \<and> adminLogs (markBonusApplied env tid r w1) = adminLogs w1 @ [referralLog env r tid]"
    if u: "getUser w1 tid = getUser w tid" for w1 :: world
  proof -
    have "getUser (updateUser tid (\<lambda>u. u\<lparr>referralBonusApplied := True\<rparr>) w1) tid
        = map_option (\<lambda>u. u\<lparr>referralBonusApplied := True\<rparr>) (getUser w1 tid)"
      by (subst getUser_updateUser) simp_all
    then show ?thesis
      using assms(1,2) u by (simp add: markBonusApplied_def Let_def)
  qed
  have "getUser (awardReferralBonus env now tid w) tid = Some (newUser\<lparr>referralBonusApplied := True\<rparr>)
     \<and> adminLogs (awardReferralBonus env now tid w) = adminLogs w @ [referralLog env r tid]"
    using assms r by (simp add: awardReferralBonus_def mark split: option.splits)
  then show ?thesis
    using approvals_risingEdges by (simp add: referralLog_def)
qed


theorem awardReferralBonus_sets_flag_once_witness:
  "storeOk env0 \<and> getUser wCancelled 200 = Some bob \<and> referredBy bob = Some 100 \<and> (100::int) \<noteq> 0
   \<and> \<not> referralBonusApplied bob \<and> subCount wCancelled 200 \<le> 1
   \<and> getUser wCancelled 100 = Some alice
   \<and> getUser (awardReferralBonus env0 (day 20) 200 wCancelled) 200
       = Some (bob\<lparr>referralBonusApplied := True\<rparr>)
   \<and> adminLogs (awardReferralBonus env0 (day 20) 200 wCancelled)
       = [\<lparr>adminId = 0, actionType = ''referral_bonus'', targetUserId = Some 100,
           logDetails = ReferralBonus 200 3\<rparr>]
   \<and> risingEdges (map (\<lambda>x. bonusApplied x 200)
        (wCancelled # approvals [(env0, day 20, 200, monthly, 9), (env0, day 21, 200, monthly, 9)]
           wCancelled)) \<le> 1"
proof -
  have h1: "storeOk env0"
    by (simp add: storeOk_def env0_def)
  have h2: "getUser wCancelled 200 = Some bob"
    by (simp add: wCancelled_def getUser_def alice_def bob_def)
  have h3: "referredBy bob = Some 100" and h5: "\<not> referralBonusApplied bob"
    by (simp_all add: bob_def)
  have h4: "(100::int) \<noteq> 0"
    by simp
  have h6: "subCount wCancelled 200 \<le> 1"
    by (simp add: subCount_def wCancelled_def mkSub_def)
  have h7: "getUser wCancelled 100 = Some alice"
    by (simp add: wCancelled_def getUser_def alice_def)
  have b: "BONUS_DAYS env0 = 3" "adminLogs wCancelled = []"
    by (simp_all add: cfg_defs wCancelled_def)
  show ?thesis
    using h1 h2 h3 h4 h5 h6 h7
      awardReferralBonus_sets_flag_once [OF h1 h2 h3 h4 h5 h6 h7, of "day 20"]
    by (simp add: b)
qed


section \<open>Loops\<close>

lemma forEach_append:
  "forEach f (xs @ ys) w = andThen (forEach f xs w) (\<lambda>u. forEach f ys)"
  by (induction xs arbitrary: w) (auto split: res.splits)

lemma resolved_Ret: "resolved r \<Longrightarrow> r = Ret () (worldOf r)"
  by (cases r) auto

lemma forEach_resolved:
  assumes "\<And>x w. x \<in> set xs \<Longrightarrow> resolved (f x w)"
  shows "resolved (forEach f xs w)"
  using assms
proof (induction xs arbitrary: w)
  case Nil
  then show ?case by simp
next
  case (Cons x xs)
  have "resolved (f x w)" using Cons.prems by simp
  then obtain w1 where "f x w = Ret () w1"
    using resolved_Ret by blast
  with Cons show ?case by simp
qed

lemma forEach_invariant:
  assumes "I w" and "\<And>x w. x \<in> set xs \<Longrightarrow> I w \<Longrightarrow> I (worldOf (f x w))"
  shows "I (worldOf (forEach f xs w))"
  using assms
proof (induction xs arbitrary: w)
  case Nil
  then show ?case by simp
next
  case (Cons x xs)
  have step: "I (worldOf (f x w))"
    using Cons.prems by simp
  show ?case
  proof (cases "f x w")
    case (Ret u w1)
    with step have "I w1" by simp
    then have "I (worldOf (forEach f xs w1))"
      using Cons.prems(2) by (intro Cons.IH) auto
    with Ret show ?thesis by simp
  next
    case (Rej e w1)
    with step show ?thesis by simp
  qed
qed

lemma forEach_Cons_resolved:
  "resolved (f x w) \<Longrightarrow> forEach f (x # xs) w = forEach f xs (worldOf (f x w))"
  by (cases "f x w") auto

lemma sid_inj:
  assumes "distinct (map sid ys)" and "a \<in> set ys" and "b \<in> set ys" and "sid a = sid b"
  shows "a = b"
  using assms by (auto simp: distinct_map dest: inj_onD)

lemma updateFirst_id [simp]: "updateFirst P (\<lambda>x. x) xs = xs"
  by (induction xs) auto

lemma forEach_subs:
  assumes res: "\<And>x w. x \<in> set xs \<Longrightarrow> resolved (f x w)"
    and step: "\<And>x w. x \<in> set xs \<Longrightarrow>
        subs (worldOf (f x w)) = updateFirst (\<lambda>s. sid s = sid x) (g x) (subs w)"
    and sidg: "\<And>x s. sid (g x s) = sid s"
    and "distinct (map sid (subs w))" and "distinct (map sid xs)" and "set xs \<subseteq> set (subs w)"
  shows "subs (worldOf (forEach f xs w)) = map (\<lambda>s. if s \<in> set xs then g s s else s) (subs w)"
  using assms(4-)  res step
proof (induction xs arbitrary: w)
  case Nil
  then show ?case by simp
next
  case (Cons x xs)
  let ?w1 = "worldOf (f x w)"
  let ?u = "\<lambda>s. if sid s = sid x then g x s else s"
  have r: "resolved (f x w)" using Cons.prems(4) by simp
  have s1: "subs ?w1 = map ?u (subs w)"
    using Cons.prems(5) [of x w] Cons.prems(1) by (simp add: updateFirst_distinct)
  have ids: "map sid (subs ?w1) = map sid (subs w)"
    by (simp add: s1 sidg)
  have d1: "distinct (map sid (subs ?w1))"
    using ids Cons.prems(1) by simp
  have xin: "x \<in> set (subs w)" using Cons.prems(3) by simp
  have other: "sid y \<noteq> sid x" if "y \<in> set xs" for y
    using Cons.prems(2) that by (auto simp: image_iff)
  have sub1: "set xs \<subseteq> set (subs ?w1)"
  proof
    fix y assume y: "y \<in> set xs"
    then have "y \<in> set (subs w)" using Cons.prems(3) by auto
    moreover have "y = ?u y" using other [OF y] by simp
    ultimately have "y \<in> ?u ` set (subs w)"
      by (intro image_eqI [where x = y])
    then show "y \<in> set (subs ?w1)"
      unfolding s1 by simp
  qed
  have IH: "subs (worldOf (forEach f xs ?w1)) = map (\<lambda>s. if s \<in> set xs then g s s else s) (subs ?w1)"
    using d1 Cons.prems(2) sub1 Cons.prems(4,5) by (intro Cons.IH) auto
  have pt: "(let s' = ?u s in if s' \<in> set xs then g s' s' else s')
      = (if s \<in> set (x # xs) then g s s else s)" if sin: "s \<in> set (subs w)" for s
  proof (cases "sid s = sid x")
    case True
    then have sx: "s = x"
      using sid_inj [OF Cons.prems(1) sin xin] by simp
    have "g x x \<notin> set xs"
      using other [of "g x x"] sidg by auto
    with sx show ?thesis by simp
  next
    case False
    then have "s \<noteq> x" by auto
    with False show ?thesis by simp
  qed
  have "forEach f (x # xs) w = forEach f xs ?w1"
    using r by (rule forEach_Cons_resolved)
  then have "subs (worldOf (forEach f (x # xs) w)) = subs (worldOf (forEach f xs ?w1))"
    by simp
  also have "\<dots> = map (\<lambda>s. let s' = ?u s in if s' \<in> set xs then g s' s' else s') (subs w)"
    unfolding IH s1 by (simp add: Let_def comp_def)
  also have "\<dots> = map (\<lambda>s. if s \<in> set (x # xs) then g s s else s) (subs w)"
    using pt by (intro map_cong) auto
  finally show ?case .
qed

lemma forEach_subs_filter:
  assumes res: "\<And>x w. resolved (f x w)"
    and step: "\<And>x w. subs (worldOf (f x w)) = updateFirst (\<lambda>s. sid s = sid x) (g x) (subs w)"
    and sidg: "\<And>x s. sid (g x s) = sid s"
    and d: "distinct (map sid (subs w))"
  shows "subs (worldOf (forEach f (filter P (subs w)) w)) = map (\<lambda>s. if P s then g s s else s) (subs w)"
proof -
  have "subs (worldOf (forEach f (filter P (subs w)) w))
      = map (\<lambda>s. if s \<in> set (filter P (subs w)) then g s s else s) (subs w)"
    using res step sidg d by (intro forEach_subs) (auto simp: distinct_map_filter)
  also have "\<dots> = map (\<lambda>s. if P s then g s s else s) (subs w)"
    by (intro map_cong) auto
  finally show ?thesis .
qed

lemma visits_append [simp]: "visits (xs @ ys) = visits xs @ visits ys"
  by (induction xs rule: visits.induct) auto

lemma Visit_in_iff: "Visit i \<in> set es \<longleftrightarrow> i \<in> set (visits es)"
  by (induction es rule: visits.induct) auto

section \<open>What a job leaves in place\<close>

lemma take_prefix_iff: "take (length xs) ys = xs \<longleftrightarrow> ys = xs @ drop (length xs) ys"
proof
  assume "take (length xs) ys = xs"
  then have "xs @ drop (length xs) ys = take (length xs) ys @ drop (length xs) ys"
    by simp
  then show "ys = xs @ drop (length xs) ys"
    by simp
next
  assume "ys = xs @ drop (length xs) ys"
  then have "take (length xs) ys = take (length xs) (xs @ drop (length xs) ys)"
    by simp
  then show "take (length xs) ys = xs"
    by simp
qed

lemma grows_iff:
  "grows w w' \<longleftrightarrow>
     trace w' = trace w @ newEvents w w' \<and> adminLogs w' = adminLogs w @ newLogs w w'
     \<and> map u_telegramId (users w') = map u_telegramId (users w)
     \<and> map sid (subs w') = map sid (subs w) \<and> members w' \<subseteq> members w"
  unfolding grows_def newEvents_def newLogs_def take_prefix_iff ..

lemma growsI:
  assumes "trace w' = trace w @ es" and "adminLogs w' = adminLogs w @ ls"
    and "map u_telegramId (users w') = map u_telegramId (users w)"
    and "map sid (subs w') = map sid (subs w)" and "members w' \<subseteq> members w"
  shows "grows w w'"
  using assms by (simp add: grows_def)

lemma newEvents_eq: "trace w' = trace w @ es \<Longrightarrow> newEvents w w' = es"
  by (simp add: newEvents_def)

lemma newLogs_eq: "adminLogs w' = adminLogs w @ ls \<Longrightarrow> newLogs w w' = ls"
  by (simp add: newLogs_def)

lemma grows_refl [simp]: "grows w w"
  by (simp add: grows_def)

lemma newEvents_refl [simp]: "newEvents w w = []"
  by (simp add: newEvents_def)

lemma newLogs_refl [simp]: "newLogs w w = []"
  by (simp add: newLogs_def)

lemma grows_trans:
  assumes "grows a b" and "grows b c"
  shows "grows a c"
proof -
  from assms have "trace c = trace a @ (newEvents a b @ newEvents b c)"
    and "adminLogs c = adminLogs a @ (newLogs a b @ newLogs b c)"
    by (simp_all add: grows_iff)
  moreover from assms have "map u_telegramId (users c) = map u_telegramId (users a)"
    "map sid (subs c) = map sid (subs a)" "members c \<subseteq> members a"
    by (auto simp: grows_def)
  ultimately show ?thesis by (rule growsI)
qed

lemma newEvents_trans:
  assumes "grows a b" and "grows b c"
  shows "newEvents a c = newEvents a b @ newEvents b c"
proof -
  from assms have "trace c = trace a @ (newEvents a b @ newEvents b c)"
    by (simp add: grows_iff)
  then show ?thesis by (rule newEvents_eq)
qed

lemma newLogs_trans:
  assumes "grows a b" and "grows b c"
  shows "newLogs a c = newLogs a b @ newLogs b c"
proof -
  from assms have "adminLogs c = adminLogs a @ (newLogs a b @ newLogs b c)"
    by (simp add: grows_iff)
  then show ?thesis by (rule newLogs_eq)
qed

lemma grows_emit [simp]: "grows w (emit e w)" and newEvents_emit [simp]: "newEvents w (emit e w) = [e]"
  and newLogs_emit [simp]: "newLogs w (emit e w) = []"
  by (simp_all add: grows_def newEvents_def newLogs_def)

lemma grows_logToChannel [simp]: "grows w (logToChannel m w)"
  and newEvents_logToChannel [simp]: "newEvents w (logToChannel m w) = [ChannelPost m]"
  and newLogs_logToChannel [simp]: "newLogs w (logToChannel m w) = []"
  by (simp_all add: logToChannel_def)

lemma grows_createLog [simp]: "grows w (createLog l w)"
  and newEvents_createLog [simp]: "newEvents w (createLog l w) = []"
  and newLogs_createLog [simp]: "newLogs w (createLog l w) = [l]"
  by (simp_all add: grows_def newEvents_def newLogs_def)

lemma grows_updateUser:
  assumes "\<And>u. u_telegramId (f u) = u_telegramId u"
  shows "grows w (updateUser t f w)"
  by (simp add: grows_def map_updateFirst assms)

lemma newEvents_updateUser [simp]: "newEvents w (updateUser t f w) = []"
  and newLogs_updateUser [simp]: "newLogs w (updateUser t f w) = []"
  by (simp_all add: newEvents_def newLogs_def)

lemma grows_updateSub:
  assumes "\<And>s. sid (f s) = sid s"
  shows "grows w (updateSub i f w)"
  by (simp add: grows_def map_updateFirst assms)

lemma newEvents_updateSub [simp]: "newEvents w (updateSub i f w) = []"
  and newLogs_updateSub [simp]: "newLogs w (updateSub i f w) = []"
  by (simp_all add: newEvents_def newLogs_def)

text \<open>Whether the blocked-user procedure runs to its end after a send.\<close>

lemma handleBlockedUser_grows: "grows w (handleBlockedUser env t w)"
proof -
  let ?w1 = "updateUser t (\<lambda>u. u\<lparr>isBlocked := True, u_status := UBlocked\<rparr>) w"
  have 1: "grows w ?w1"
    by (rule grows_updateUser) simp
  have "grows ?w1 (emit (ChannelPost (BotBlockedAlert t)) (createLog (blockedLog t) ?w1))"
    by (rule grows_trans [OF grows_createLog grows_emit])
  with 1 have "grows w (emit (ChannelPost (BotBlockedAlert t)) (createLog (blockedLog t) ?w1))"
    by (rule grows_trans)
  with 1 show ?thesis
    by (simp add: handleBlockedUser_def Let_def)
qed

lemma handleBlockedUser_visits: "visits (newEvents w (handleBlockedUser env t w)) = []"
proof -
  let ?w1 = "updateUser t (\<lambda>u. u\<lparr>isBlocked := True, u_status := UBlocked\<rparr>) w"
  have "newEvents w (emit (ChannelPost (BotBlockedAlert t)) (createLog (blockedLog t) ?w1))
      = [ChannelPost (BotBlockedAlert t)]"
    by (rule newEvents_eq) simp
  then show ?thesis
    by (simp add: handleBlockedUser_def Let_def)
qed

lemma safeSend_grows: "grows w (snd (safeSend env t m w))"
proof -
  have "grows w (handleBlockedUser env t (emit (SendMessage t m) w))"
    by (rule grows_trans [OF grows_emit handleBlockedUser_grows])
  then show ?thesis
    by (simp add: safeSend_def Let_def split: delivery.splits)
qed

lemma safeSend_events:
  "\<exists>es. newEvents w (snd (safeSend env t m w)) = SendMessage t m # es \<and> visits es = []"
proof -
  let ?w1 = "emit (SendMessage t m) w"
  have "newEvents w (handleBlockedUser env t ?w1)
      = newEvents w ?w1 @ newEvents ?w1 (handleBlockedUser env t ?w1)"
    by (rule newEvents_trans [OF grows_emit handleBlockedUser_grows])
  then have "newEvents w (handleBlockedUser env t ?w1)
      = SendMessage t m # newEvents ?w1 (handleBlockedUser env t ?w1)"
    by simp
  then show ?thesis
    by (simp add: safeSend_def Let_def handleBlockedUser_visits split: delivery.splits)
qed

lemma banFromGroup_grows: "grows w (snd (banFromGroup env t w))"
  by (simp add: grows_def)

lemma banFromGroup_events: "newEvents w (snd (banFromGroup env t w)) = [BanChatMember t]"
  by (simp add: newEvents_def)

lemma banFromGroup_logs: "newLogs w (snd (banFromGroup env t w)) = []"
  by (simp add: newLogs_def)

lemma getUser_handleBlockedUser:
  "getUser (handleBlockedUser env t w) t' =
     (if t' = t \<and> \<not> fails env (UserUpdate t)
      then map_option (\<lambda>u. u\<lparr>isBlocked := True, u_status := UBlocked\<rparr>) (getUser w t)
      else getUser w t')"
  by (simp add: handleBlockedUser_def Let_def getUser_updateUser)

lemma getUser_safeSend:
  "getUser (snd (safeSend env t m w)) t' =
     (if t' = t \<and> deliver env t m = Blocked403 \<and> \<not> fails env (UserUpdate t)
      then map_option (\<lambda>u. u\<lparr>isBlocked := True, u_status := UBlocked\<rparr>) (getUser w t)
      else getUser w t')"
  by (simp add: safeSend_def Let_def getUser_handleBlockedUser split: delivery.splits)

lemma getUser_banFromGroup [simp]: "getUser (snd (banFromGroup env t w)) t' = getUser w t'"
  by (simp add: getUser_def)

lemma getSub_safeSend [simp]: "getSub (snd (safeSend env t m w)) i = getSub w i"
  by (simp add: getSub_def)

lemma getSub_banFromGroup [simp]: "getSub (snd (banFromGroup env t w)) i = getSub w i"
  by (simp add: getSub_def)

lemma handleBlockedUser_trace:
  "trace (handleBlockedUser env t w) = trace w @
     (if \<not> fails env (UserUpdate t) \<and> \<not> fails env (AdminLogCreate t)
      then [ChannelPost (BotBlockedAlert t)] else [])"
  and handleBlockedUser_adminLogs:
  "adminLogs (handleBlockedUser env t w) = adminLogs w @
     (if \<not> fails env (UserUpdate t) \<and> \<not> fails env (AdminLogCreate t)
      then [blockedLog t] else [])"
  and handleBlockedUser_users:
  "users (handleBlockedUser env t w) =
     (if \<not> fails env (UserUpdate t)
      then updateFirst (\<lambda>u. u_telegramId u = t) (\<lambda>u. u\<lparr>isBlocked := True, u_status := UBlocked\<rparr>) (users w)
      else users w)"
  by (simp_all add: handleBlockedUser_def Let_def)

lemma safeSend_trace:
  "trace (snd (safeSend env t m w)) = trace w @ SendMessage t m #
     (if deliver env t m = Blocked403 \<and> \<not> fails env (UserUpdate t) \<and> \<not> fails env (AdminLogCreate t)
      then [ChannelPost (BotBlockedAlert t)] else [])"
  and safeSend_adminLogs:
  "adminLogs (snd (safeSend env t m w)) = adminLogs w @
     (if deliver env t m = Blocked403 \<and> \<not> fails env (UserUpdate t) \<and> \<not> fails env (AdminLogCreate t)
      then [blockedLog t] else [])"
  and safeSend_users:
  "users (snd (safeSend env t m w)) =
     (if deliver env t m = Blocked403 \<and> \<not> fails env (UserUpdate t)
      then updateFirst (\<lambda>u. u_telegramId u = t) (\<lambda>u. u\<lparr>isBlocked := True, u_status := UBlocked\<rparr>) (users w)
      else users w)"
  by (simp_all add: safeSend_def Let_def handleBlockedUser_trace handleBlockedUser_adminLogs
      handleBlockedUser_users split: delivery.splits)

lemmas world_simps = safeSend_trace safeSend_adminLogs safeSend_users map_updateFirst

subsection \<open>The first loop of the grace job\<close>

lemma graceEntryStep_resolved: "storeOk env \<Longrightarrow> resolved (graceEntryStep env x w)"
  by (simp add: graceEntryStep_def Let_def)

lemma graceEntryStep_subs:
  "storeOk env \<Longrightarrow>
   subs (worldOf (graceEntryStep env x w)) = updateFirst (\<lambda>s. sid s = sid x) toGrace (subs w)"
  by (simp add: graceEntryStep_def Let_def toGrace_def [abs_def])

lemma graceEntryStep_grows:
  "grows w (worldOf (graceEntryStep env x w))
   \<and> visits (newEvents w (worldOf (graceEntryStep env x w))) = [sid x]"
  by (simp add: graceEntryStep_def Let_def grows_def newEvents_def world_simps)

lemma graceEntryStep_trace:
  "storeOk env \<Longrightarrow>
   trace (worldOf (graceEntryStep env x w)) = trace w @
     [Visit (sid x), SendMessage (telegramId x) (SubscriptionExpiredMsg (expiryDate x) (GRACE_DAYS env))]
     @ (if deliver env (telegramId x) (SubscriptionExpiredMsg (expiryDate x) (GRACE_DAYS env)) = Blocked403
        then [ChannelPost (BotBlockedAlert (telegramId x))] else [])
     @ [ChannelPost (GraceStartedAlert (telegramId x) (planName x))]"
  by (simp add: graceEntryStep_def Let_def world_simps)

subsection \<open>The second loop of the grace job\<close>

lemma graceStep_resolved: "storeOk env \<Longrightarrow> resolved (graceStep env today x w)"
  by (simp add: graceStep_def Let_def)

lemma sid_graceWrite [simp]: "sid (graceWrite env today x s) = sid s"
  by (simp add: graceWrite_def)

lemma graceWrite_branches:
  "graceWrite env today x =
     (if daysSinceExpiry today x \<ge> GRACE_DAYS env
        then (\<lambda>s. s\<lparr>status := Expired, graceDaysUsed := GRACE_DAYS env\<rparr>)
      else if daysSinceExpiry today x = GRACE_DAYS env - 1 \<and> \<not> day2 (graceNotifications x)
        then (\<lambda>s. s\<lparr>graceNotifications := (graceNotifications s)\<lparr>day2 := True\<rparr>\<rparr>)
      else if daysSinceExpiry today x = 1 \<and> \<not> day1 (graceNotifications x)
        then (\<lambda>s. s\<lparr>graceNotifications := (graceNotifications s)\<lparr>day1 := True\<rparr>\<rparr>)
      else (\<lambda>s. s))"
  by (rule ext) (simp add: graceWrite_def)

lemma graceStep_subs:
  "storeOk env \<Longrightarrow>
   subs (worldOf (graceStep env today x w))
     = updateFirst (\<lambda>s. sid s = sid x) (graceWrite env today x) (subs w)"
  unfolding graceWrite_branches by (simp add: graceStep_def Let_def) blast

lemma graceStep_grows:
  "grows w (worldOf (graceStep env today x w))
   \<and> visits (newEvents w (worldOf (graceStep env today x w))) = [sid x]"
  by (simp add: graceStep_def Let_def grows_def newEvents_def world_simps)

lemma graceStep_terminal_trace:
  assumes "storeOk env" and "GRACE_DAYS env \<le> daysSinceExpiry today x"
  shows "trace (worldOf (graceStep env today x w)) = trace w @
     [Visit (sid x), BanChatMember (telegramId x), SendMessage (telegramId x) AccessRemovedMsg]
     @ (if deliver env (telegramId x) AccessRemovedMsg = Blocked403
        then [ChannelPost (BotBlockedAlert (telegramId x))] else [])
     @ [ChannelPost (UserRemovedAlert (telegramId x) (daysSinceExpiry today x))]"
  using assms by (simp add: graceStep_def Let_def world_simps)

lemma graceStep_terminal_logs:
  assumes "storeOk env" and "GRACE_DAYS env \<le> daysSinceExpiry today x"
  shows "adminLogs (worldOf (graceStep env today x w)) = adminLogs w
     @ (if deliver env (telegramId x) AccessRemovedMsg = Blocked403
        then [blockedLog (telegramId x)] else [])
     @ [graceExpiredLog (telegramId x) (daysSinceExpiry today x)]"
  using assms by (simp add: graceStep_def Let_def world_simps)

lemma graceStep_terminal_members:
  assumes "storeOk env" and "GRACE_DAYS env \<le> daysSinceExpiry today x"
  shows "members (worldOf (graceStep env today x w))
     = (if banOk env (telegramId x) then members w - {telegramId x} else members w)"
  using assms by (simp add: graceStep_def Let_def)

lemma forEach_grows:
  assumes "\<And>x w. x \<in> set xs \<Longrightarrow>
      grows w (worldOf (f x w)) \<and> visits (newEvents w (worldOf (f x w))) = [k x]"
  shows "grows w (worldOf (forEach f xs w))
    \<and> set (visits (newEvents w (worldOf (forEach f xs w)))) \<subseteq> k ` set xs"
proof -
  let ?I = "\<lambda>w'. grows w w' \<and> set (visits (newEvents w w')) \<subseteq> k ` set xs"
  have "?I (worldOf (forEach f xs w))"
  proof (rule forEach_invariant [where I = ?I])
    show "?I w" by simp
  next
    fix x and w' :: world
    assume x: "x \<in> set xs" and I: "?I w'"
    from assms [OF x, of w'] have g: "grows w' (worldOf (f x w'))"
      and v: "visits (newEvents w' (worldOf (f x w'))) = [k x]" by auto
    from I g have "grows w (worldOf (f x w'))"
      by (blast intro: grows_trans)
    moreover have "newEvents w (worldOf (f x w')) = newEvents w w' @ newEvents w' (worldOf (f x w'))"
      using I g by (intro newEvents_trans) auto
    ultimately show "?I (worldOf (f x w'))"
      using I v x by auto
  qed
  then show ?thesis .
qed

lemma forEach_visits:
  assumes "\<And>x w. x \<in> set xs \<Longrightarrow> resolved (f x w)"
    and "\<And>x w. x \<in> set xs \<Longrightarrow>
      grows w (worldOf (f x w)) \<and> visits (newEvents w (worldOf (f x w))) = [k x]"
  shows "visits (newEvents w (worldOf (forEach f xs w))) = map k xs"
  using assms
proof (induction xs arbitrary: w)
  case Nil
  then show ?case by simp
next
  case (Cons x xs)
  let ?w1 = "worldOf (f x w)"
  have g1: "grows w ?w1" and v1: "visits (newEvents w ?w1) = [k x]"
    using Cons.prems(2) [of x w] by auto
  have g2: "grows ?w1 (worldOf (forEach f xs ?w1))"
    using forEach_grows [of xs f k ?w1] Cons.prems(2) by auto
  have v2: "visits (newEvents ?w1 (worldOf (forEach f xs ?w1))) = map k xs"
    using Cons.prems by (intro Cons.IH) auto
  have "forEach f (x # xs) w = forEach f xs ?w1"
    by (rule forEach_Cons_resolved) (simp add: Cons.prems(1))
  moreover have "newEvents w (worldOf (forEach f xs ?w1))
      = newEvents w ?w1 @ newEvents ?w1 (worldOf (forEach f xs ?w1))"
    using g1 g2 by (rule newEvents_trans)
  ultimately show ?case
    using v1 v2 by simp
qed

lemma forEach_establish:
  assumes x0: "x0 \<in> set xs"
    and res: "\<And>x w. x \<in> set xs \<Longrightarrow> resolved (f x w)"
    and inv: "\<And>x w. x \<in> set xs \<Longrightarrow> I w \<Longrightarrow> I (worldOf (f x w))"
    and est: "\<And>w. I w \<Longrightarrow> Q (worldOf (f x0 w))"
    and pres: "\<And>x w. x \<in> set xs \<Longrightarrow> Q w \<Longrightarrow> Q (worldOf (f x w))"
    and I: "I w"
  shows "Q (worldOf (forEach f xs w))"
proof -
  from x0 obtain as bs where xs: "xs = as @ x0 # bs"
    by (auto dest: split_list)
  let ?wa = "worldOf (forEach f as w)"
  have Ia: "I ?wa"
    using I inv xs by (intro forEach_invariant [where I = I]) auto
  have "resolved (forEach f as w)"
    using res xs by (intro forEach_resolved) auto
  then have ra: "forEach f as w = Ret () ?wa"
    by (rule resolved_Ret)
  have "forEach f xs w = forEach f (x0 # bs) ?wa"
    unfolding xs forEach_append by (subst ra) simp
  also have "\<dots> = forEach f bs (worldOf (f x0 ?wa))"
    by (rule forEach_Cons_resolved) (simp add: res x0)
  finally have eq: "forEach f xs w = forEach f bs (worldOf (f x0 ?wa))" .
  have "Q (worldOf (f x0 ?wa))"
    using Ia by (rule est)
  then have "Q (worldOf (forEach f bs (worldOf (f x0 ?wa))))"
    using pres xs by (intro forEach_invariant [where I = Q]) auto
  with eq show ?thesis by simp
qed

subsection \<open>The passes of the grace job\<close>

lemma graceEntryPass_resolved: "storeOk env \<Longrightarrow> resolved (graceEntryPass env today w)"
  by (simp add: graceEntryPass_def forEach_resolved graceEntryStep_resolved)

lemma inGracePass_resolved: "storeOk env \<Longrightarrow> resolved (inGracePass env today w)"
  by (simp add: inGracePass_def forEach_resolved graceStep_resolved)

lemma graceEntryPass_subs:
  assumes "storeOk env" and "distinct (map sid (subs w))"
  shows "subs (worldOf (graceEntryPass env today w))
    = map (\<lambda>s. if status s = Active \<and> expiryDate s < today then toGrace s else s) (subs w)"
  using assms
  by (simp add: graceEntryPass_def justExpired_def forEach_subs_filter [where g = "\<lambda>x. toGrace"]
      graceEntryStep_resolved graceEntryStep_subs toGrace_def)

lemma inGracePass_subs:
  assumes "storeOk env" and "distinct (map sid (subs w))"
  shows "subs (worldOf (inGracePass env today w))
    = map (\<lambda>s. if status s = Grace then graceWrite env today s s else s) (subs w)"
  using assms
  by (simp add: inGracePass_def inGrace_def forEach_subs_filter [where g = "graceWrite env today"]
      graceStep_resolved graceStep_subs)

lemma graceEntryPass_grows:
  "grows w (worldOf (graceEntryPass env today w))
   \<and> set (visits (newEvents w (worldOf (graceEntryPass env today w)))) \<subseteq> sid ` set (justExpired today w)"
  using forEach_grows [of "justExpired today w" "graceEntryStep env" sid w]
  by (simp add: graceEntryPass_def graceEntryStep_grows)

lemma inGracePass_grows:
  "grows w (worldOf (inGracePass env today w))
   \<and> set (visits (newEvents w (worldOf (inGracePass env today w)))) \<subseteq> sid ` set (inGrace w)"
  using forEach_grows [of "inGrace w" "graceStep env today" sid w]
  by (simp add: inGracePass_def graceStep_grows)

lemma graceEntryPass_visits:
  "storeOk env \<Longrightarrow>
   visits (newEvents w (worldOf (graceEntryPass env today w))) = map sid (justExpired today w)"
  by (simp add: graceEntryPass_def forEach_visits graceEntryStep_resolved graceEntryStep_grows)

lemma inGracePass_visits:
  "storeOk env \<Longrightarrow>
   visits (newEvents w (worldOf (inGracePass env today w))) = map sid (inGrace w)"
  by (simp add: inGracePass_def forEach_visits graceStep_resolved graceStep_grows)

lemma gracePeriodHandler_worldOf:
  "worldOf (gracePeriodHandler env now w) =
     (case graceEntryPass env (startOfToday now) w of
        Rej e w1 \<Rightarrow> w1
      | Ret u w1 \<Rightarrow> worldOf (inGracePass env (startOfToday now) w1))"
  by (simp add: gracePeriodHandler_def andThen_def split: res.splits)

lemma gracePeriodHandler_ok:
  assumes "storeOk env"
  shows "gracePeriodHandler env now w
    = inGracePass env (startOfToday now) (worldOf (graceEntryPass env (startOfToday now) w))"
    and "resolved (gracePeriodHandler env now w)"
proof -
  have "graceEntryPass env (startOfToday now) w = Ret () (worldOf (graceEntryPass env (startOfToday now) w))"
    using assms by (intro resolved_Ret graceEntryPass_resolved)
  then show "gracePeriodHandler env now w
    = inGracePass env (startOfToday now) (worldOf (graceEntryPass env (startOfToday now) w))"
    unfolding gracePeriodHandler_def by (metis andThen_Ret)
  then show "resolved (gracePeriodHandler env now w)"
    using assms by (simp add: inGracePass_resolved)
qed

lemma count_list_distinct: "distinct xs \<Longrightarrow> x \<in> set xs \<Longrightarrow> count_list xs x = 1"
  by (induction xs) auto

lemma getSub_map:
  assumes "distinct (map sid (subs w))" and "x \<in> set (subs w)" and "\<And>y. sid (h y) = sid y"
    and "subs w' = map h (subs w)"
  shows "getSub w' (sid x) = Some (h x)"
proof -
  have "distinct (map sid (subs w'))"
    using assms by (simp add: comp_def)
  moreover have "h x \<in> set (subs w')"
    using assms by simp
  ultimately have "find (\<lambda>y. sid y = sid (h x)) (subs w') = Some (h x)"
    by (rule find_distinct_mem)
  then show ?thesis
    by (simp add: getSub_def assms(3))
qed

lemma getSub_mem: "getSub w i = Some r \<Longrightarrow> r \<in> set (subs w) \<and> sid r = i"
  by (auto simp: getSub_def find_Some_iff)

lemma getSub_unique:
  assumes "distinct (map sid (subs w))" and "getSub w i = Some r" and "x \<in> set (subs w)" and "sid x = i"
  shows "x = r"
  using assms sid_inj [of "subs w" x r] getSub_mem [of w i r] by auto

lemma getUser_None_iff: "getUser w t = None \<longleftrightarrow> t \<notin> set (map u_telegramId (users w))"
  by (auto simp: getUser_def find_None_iff)

lemma grows_getUser_None: "grows w w' \<Longrightarrow> getUser w' t = None \<longleftrightarrow> getUser w t = None"
  by (simp add: getUser_None_iff grows_def)

subsection \<open>Steps of the grace job and the documents of other subscriptions\<close>

lemma graceEntryStep_getSub_other:
  "sid x \<noteq> i \<Longrightarrow> getSub (worldOf (graceEntryStep env x w)) i = getSub w i"
  by (simp add: graceEntryStep_def Let_def getSub_updateSub)

lemma graceStep_getSub_other:
  "sid x \<noteq> i \<Longrightarrow> getSub (worldOf (graceStep env today x w)) i = getSub w i"
  by (simp add: graceStep_def Let_def getSub_updateSub)

subsection \<open>Steps of the grace job and the user\<close>

lemma removedUser_blocked:
  assumes "removedUser env t ou" and "deliver env t m = Blocked403"
  shows "removedUser env t (map_option (\<lambda>u. u\<lparr>isBlocked := True, u_status := UBlocked\<rparr>) ou)"
  using assms by (auto simp: removedUser_def split: option.splits)

lemma removedUser_set:
  "removedUser env t (map_option (\<lambda>u. u\<lparr>u_status := UExpired, graceDaysRemaining := Some 0\<rparr>) ou)"
  by (auto simp: removedUser_def split: option.splits)

lemma removedUser_safeSend:
  assumes "removedUser env t (getUser w t)"
  shows "removedUser env t (getUser (snd (safeSend env t' m w)) t)"
  using assms removedUser_blocked [of env t "getUser w t" m]
  by (auto simp add: getUser_safeSend)

lemma graceStep_removedUser_pres:
  assumes "storeOk env" and "removedUser env t (getUser w t)"
  shows "removedUser env t (getUser (worldOf (graceStep env today x w)) t)"
proof (cases "telegramId x = t")
  case False
  then have "getUser (worldOf (graceStep env today x w)) t = getUser w t"
    using assms(1) by (simp add: graceStep_def Let_def getUser_updateUser getUser_safeSend)
  with assms(2) show ?thesis by simp
next
  case True
  have a: "removedUser env t (getUser (emit e w) t)" for e
    using assms(2) by simp
  have b: "removedUser env t (getUser (snd (safeSend env t m (emit e w))) t)" for e m
    using a by (rule removedUser_safeSend)
  have c: "removedUser env t (getUser (snd (safeSend env t m
      (updateUser t (\<lambda>u. u\<lparr>u_status := UExpired, graceDaysRemaining := Some 0\<rparr>) w0))) t)" for m w0
    by (rule removedUser_safeSend) (simp add: getUser_updateUser removedUser_set)
  show ?thesis
    using assms(1) True a b c by (simp add: graceStep_def Let_def)
qed

lemma graceStep_removedUser_est:
  assumes "storeOk env" and "GRACE_DAYS env \<le> daysSinceExpiry today x"
  shows "removedUser env (telegramId x) (getUser (worldOf (graceStep env today x w)) (telegramId x))"
proof -
  have "removedUser env (telegramId x) (getUser (snd (safeSend env (telegramId x) m
      (updateUser (telegramId x) (\<lambda>u. u\<lparr>u_status := UExpired, graceDaysRemaining := Some 0\<rparr>) w0)))
      (telegramId x))" for m w0
    by (rule removedUser_safeSend) (simp add: getUser_updateUser removedUser_set)
  then show ?thesis
    using assms by (simp add: graceStep_def Let_def)
qed

lemma gracePeriodHandler_skips_expired:
  assumes d: "distinct (map sid (subs w))" and r: "getSub w i = Some r" and st: "status r = Expired"
  shows "getSub (worldOf (gracePeriodHandler env now w)) i = Some r
    \<and> i \<notin> set (visits (newEvents w (worldOf (gracePeriodHandler env now w))))
    \<and> grows w (worldOf (gracePeriodHandler env now w))"
proof -
  let ?today = "startOfToday now"
  let ?p1 = "graceEntryPass env ?today w"
  let ?w1 = "worldOf ?p1"
  have cand1: "sid x \<noteq> i" if "x \<in> set (justExpired ?today w)" for x
  proof
    assume "sid x = i"
    moreover from that have "x \<in> set (subs w)" and "status x = Active"
      by (auto simp: justExpired_def)
    ultimately have "x = r" using d r by (intro getSub_unique)
    with st \<open>status x = Active\<close> show False by simp
  qed
  have g1: "getSub ?w1 i = Some r"
  proof (cases "fails env SubscriptionFind")
    case True
    with r show ?thesis by (simp add: graceEntryPass_def)
  next
    case False
    have "getSub (worldOf (forEach (graceEntryStep env) (justExpired ?today w) w)) i = Some r"
      using r cand1
      by (intro forEach_invariant [where I = "\<lambda>w'. getSub w' i = Some r"])
        (auto simp: graceEntryStep_getSub_other)
    with False show ?thesis by (simp add: graceEntryPass_def)
  qed
  have gr1: "grows w ?w1" and v1: "set (visits (newEvents w ?w1)) \<subseteq> sid ` set (justExpired ?today w)"
    using graceEntryPass_grows [of w env ?today] by auto
  have n1: "i \<notin> set (visits (newEvents w ?w1))"
    using v1 cand1 by auto
  have d1: "distinct (map sid (subs ?w1))"
    using gr1 d by (simp add: grows_def)
  show ?thesis
  proof (cases ?p1)
    case (Rej e w1)
    then have "worldOf (gracePeriodHandler env now w) = ?w1"
      by (simp add: gracePeriodHandler_worldOf)
    with g1 n1 gr1 show ?thesis by simp
  next
    case (Ret u w1)
    let ?w2 = "worldOf (inGracePass env ?today ?w1)"
    from Ret have eq: "worldOf (gracePeriodHandler env now w) = ?w2"
      by (simp add: gracePeriodHandler_worldOf)
    have cand2: "sid x \<noteq> i" if "x \<in> set (inGrace ?w1)" for x
    proof
      assume "sid x = i"
      moreover from that have "x \<in> set (subs ?w1)" and "status x = Grace"
        by (auto simp: inGrace_def)
      ultimately have "x = r" using d1 g1 by (intro getSub_unique)
      with st \<open>status x = Grace\<close> show False by simp
    qed
    have g2: "getSub ?w2 i = Some r"
    proof (cases "fails env SubscriptionFind")
      case True
      with g1 show ?thesis by (simp add: inGracePass_def)
    next
      case False
      have "getSub (worldOf (forEach (graceStep env ?today) (inGrace ?w1) ?w1)) i = Some r"
        using g1 cand2
        by (intro forEach_invariant [where I = "\<lambda>w'. getSub w' i = Some r"])
          (auto simp: graceStep_getSub_other)
      with False show ?thesis by (simp add: inGracePass_def)
    qed
    have gr2: "grows ?w1 ?w2" and v2: "set (visits (newEvents ?w1 ?w2)) \<subseteq> sid ` set (inGrace ?w1)"
      using inGracePass_grows [of ?w1 env ?today] by auto
    have "newEvents w ?w2 = newEvents w ?w1 @ newEvents ?w1 ?w2"
      using gr1 gr2 by (rule newEvents_trans)
    moreover have "i \<notin> set (visits (newEvents ?w1 ?w2))"
      using v2 cand2 by auto
    ultimately have "i \<notin> set (visits (newEvents w ?w2))"
      using n1 by simp
    moreover have "grows w ?w2"
      using gr1 gr2 by (rule grows_trans)
    ultimately show ?thesis
      using g2 eq by simp
  qed
qed

lemma inGracePass_terminal:
  assumes ok: "storeOk env" and d: "distinct (map sid (subs w))"
    and s: "s \<in> set (subs w)" "status s = Grace" "GRACE_DAYS env \<le> daysSinceExpiry today s"
  shows "BanChatMember (telegramId s) \<in> set (newEvents w (worldOf (inGracePass env today w)))
    \<and> SendMessage (telegramId s) AccessRemovedMsg \<in> set (newEvents w (worldOf (inGracePass env today w)))
    \<and> ChannelPost (UserRemovedAlert (telegramId s) (daysSinceExpiry today s))
        \<in> set (newEvents w (worldOf (inGracePass env today w)))
    \<and> graceExpiredLog (telegramId s) (daysSinceExpiry today s)
        \<in> set (newLogs w (worldOf (inGracePass env today w)))
    \<and> removedUser env (telegramId s) (getUser (worldOf (inGracePass env today w)) (telegramId s))
    \<and> (banOk env (telegramId s) \<longrightarrow> telegramId s \<notin> members (worldOf (inGracePass env today w)))"
proof -
  let ?t = "telegramId s" and ?d = "daysSinceExpiry today s"
  let ?Q = "\<lambda>w'. grows w w'
    \<and> BanChatMember ?t \<in> set (newEvents w w')
    \<and> SendMessage ?t AccessRemovedMsg \<in> set (newEvents w w')
    \<and> ChannelPost (UserRemovedAlert ?t ?d) \<in> set (newEvents w w')
    \<and> graceExpiredLog ?t ?d \<in> set (newLogs w w')
    \<and> removedUser env ?t (getUser w' ?t)
    \<and> (banOk env ?t \<longrightarrow> ?t \<notin> members w')"
  have sin: "s \<in> set (inGrace w)"
    using s by (simp add: inGrace_def)
  have "?Q (worldOf (forEach (graceStep env today) (inGrace w) w))"
  proof (rule forEach_establish [where I = "grows w" and ?x0.0 = s])
    show "s \<in> set (inGrace w)" by (rule sin)
    show "grows w w" by simp
  next
    fix x and w' :: world
    show "resolved (graceStep env today x w')"
      using ok by (rule graceStep_resolved)
  next
    fix x and w' :: world
    assume "grows w w'"
    then show "grows w (worldOf (graceStep env today x w'))"
      using graceStep_grows [of w' env today x] by (blast intro: grows_trans)
  next
    fix wa :: world
    assume ga: "grows w wa"
    let ?ws = "worldOf (graceStep env today s wa)"
    have gs: "grows wa ?ws"
      using graceStep_grows [of wa env today s] by simp
    have ev: "newEvents wa ?ws = [Visit (sid s), BanChatMember ?t, SendMessage ?t AccessRemovedMsg]
       @ (if deliver env ?t AccessRemovedMsg = Blocked403 then [ChannelPost (BotBlockedAlert ?t)] else [])
       @ [ChannelPost (UserRemovedAlert ?t ?d)]"
      by (rule newEvents_eq) (use ok s(3) in \<open>simp add: graceStep_terminal_trace\<close>)
    have lg: "newLogs wa ?ws = (if deliver env ?t AccessRemovedMsg = Blocked403 then [blockedLog ?t] else [])
       @ [graceExpiredLog ?t ?d]"
      by (rule newLogs_eq) (use ok s(3) in \<open>simp add: graceStep_terminal_logs\<close>)
    have "newEvents w ?ws = newEvents w wa @ newEvents wa ?ws"
      and "newLogs w ?ws = newLogs w wa @ newLogs wa ?ws"
      using ga gs by (rule newEvents_trans, rule newLogs_trans)
    moreover have "grows w ?ws"
      using ga gs by (rule grows_trans)
    moreover have "removedUser env ?t (getUser ?ws ?t)"
      using ok s(3) by (rule graceStep_removedUser_est)
    moreover have "banOk env ?t \<longrightarrow> ?t \<notin> members ?ws"
      using ok s(3) by (simp add: graceStep_terminal_members)
    ultimately show "?Q ?ws"
      by (simp add: ev lg)
  next
    fix x and w' :: world
    assume Q: "?Q w'"
    let ?w2 = "worldOf (graceStep env today x w')"
    have g: "grows w' ?w2"
      using graceStep_grows [of w' env today x] by simp
    from Q have gw: "grows w w'" by simp
    have "newEvents w ?w2 = newEvents w w' @ newEvents w' ?w2"
      and "newLogs w ?w2 = newLogs w w' @ newLogs w' ?w2"
      using gw g by (rule newEvents_trans, rule newLogs_trans)
    moreover have "grows w ?w2"
      using gw g by (rule grows_trans)
    moreover have "removedUser env ?t (getUser ?w2 ?t)"
      using ok Q by (intro graceStep_removedUser_pres) auto
    moreover have "members ?w2 \<subseteq> members w'"
      using g by (simp add: grows_def)
    ultimately show "?Q ?w2"
      using Q by auto
  qed
  then show ?thesis
    using ok by (simp add: inGracePass_def)
qed

lemma in_map_fixed: "x \<in> set xs \<Longrightarrow> h x = x \<Longrightarrow> x \<in> set (map h xs)"
  by (induction xs) auto

section \<open>The grace period job\<close>

text \<open>
  C1. Let a subscription be in grace and at least \<^verbatim>\<open>GRACE_PERIOD_DAYS\<close> days past its expiry
  (counted from the start of today). Then, the database working and whatever Telegram
  answers, one run of the grace job resolves and performs the terminal transition: the
  second loop visits the subscription exactly once, calls \<^verbatim>\<open>banChatMember\<close> for its user,
  stores \<^verbatim>\<open>status = 'expired'\<close> and \<^verbatim>\<open>graceDaysUsed = GRACE_PERIOD_DAYS\<close>, sets the user's
  \<^verbatim>\<open>graceDaysRemaining\<close> to 0 and status to expired (at the end of the run the status is
  expired, or blocked when Telegram answered 403 to a message for that user, by the
  procedure of C8), sends the removal notice, and writes the audit entry with the reason
  "Grace period expired" and the number of days overdue. A later run, at any time and in
  any environment, does not visit the subscription and leaves its document as it is.
\<close>

theorem grace_terminal_transition:
  assumes ok: "storeOk env" and d: "distinct (map sid (subs w))"
    and s: "s \<in> set (subs w)" "status s = Grace"
      "GRACE_DAYS env \<le> daysSinceExpiry (startOfToday now) s"
  shows "\<exists>w'. gracePeriodHandler env now w = Ret () w'
    \<and> trace w' = trace w @ newEvents w w' \<and> adminLogs w' = adminLogs w @ newLogs w w'
    \<and> getSub w' (sid s) = Some (s\<lparr>status := Expired, graceDaysUsed := GRACE_DAYS env\<rparr>)
    \<and> count_list (visits (newEvents w w')) (sid s) = 1
    \<and> BanChatMember (telegramId s) \<in> set (newEvents w w')
    \<and> SendMessage (telegramId s) AccessRemovedMsg \<in> set (newEvents w w')
    \<and> \<lparr>adminId = 0, actionType = ''ban_user'', targetUserId = Some (telegramId s),
         logDetails = ReasonOverdue ''Grace period expired'' (daysSinceExpiry (startOfToday now) s)\<rparr>
        \<in> set (newLogs w w')
    \<and> (\<forall>u. getUser w (telegramId s) = Some u \<longrightarrow>
          (\<exists>u'. getUser w' (telegramId s) = Some u' \<and> graceDaysRemaining u' = Some 0
             \<and> (u_status u' = UExpired
                 \<or> u_status u' = UBlocked \<and> (\<exists>m. deliver env (telegramId s) m = Blocked403))))
    \<and> (banOk env (telegramId s) \<longrightarrow> telegramId s \<notin> members w')
    \<and> (\<forall>env2 now2.
          getSub (worldOf (gracePeriodHandler env2 now2 w')) (sid s) = getSub w' (sid s)
          \<and> sid s \<notin> set (visits (newEvents w' (worldOf (gracePeriodHandler env2 now2 w')))))"
proof -
  let ?today = "startOfToday now" and ?t = "telegramId s"
  let ?w1 = "worldOf (graceEntryPass env ?today w)"
  let ?w' = "worldOf (inGracePass env ?today ?w1)"
  let ?e = "\<lambda>s. if status s = Active \<and> expiryDate s < ?today then toGrace s else s"
  let ?g = "\<lambda>s. if status s = Grace then graceWrite env ?today s s else s"
  let ?s' = "s\<lparr>status := Expired, graceDaysUsed := GRACE_DAYS env\<rparr>"
  have run: "gracePeriodHandler env now w = Ret () ?w'"
    using gracePeriodHandler_ok [OF ok, of now w] resolved_Ret by metis
  have sw1: "subs ?w1 = map ?e (subs w)"
    using ok d by (rule graceEntryPass_subs)
  have gr1: "grows w ?w1"
    using graceEntryPass_grows [of w env ?today] by simp
  have d1: "distinct (map sid (subs ?w1))"
    using gr1 d by (simp add: grows_def)
  have s1: "s \<in> set (subs ?w1)"
    unfolding sw1 using s(1) by (rule in_map_fixed) (simp add: s(2))
  have sw': "subs ?w' = map ?g (subs ?w1)"
    using ok d1 by (rule inGracePass_subs)
  have gr2: "grows ?w1 ?w'"
    using inGracePass_grows [of ?w1 env ?today] by simp
  have gr: "grows w ?w'"
    using gr1 gr2 by (rule grows_trans)
  have gs: "?g s = ?s'"
    using s(2,3) by (simp add: graceWrite_def)
  have "getSub ?w' (sid s) = Some (?g s)"
    by (rule getSub_map [OF d1 s1 _ sw']) simp
  then have sub': "getSub ?w' (sid s) = Some ?s'"
    by (simp only: gs)
  have fin: "BanChatMember ?t \<in> set (newEvents ?w1 ?w')"
    "SendMessage ?t AccessRemovedMsg \<in> set (newEvents ?w1 ?w')"
    "graceExpiredLog ?t (daysSinceExpiry ?today s) \<in> set (newLogs ?w1 ?w')"
    "removedUser env ?t (getUser ?w' ?t)"
    "banOk env ?t \<longrightarrow> ?t \<notin> members ?w'"
    using inGracePass_terminal [OF ok d1 s1 s(2,3)] by simp_all
  have ne: "newEvents w ?w' = newEvents w ?w1 @ newEvents ?w1 ?w'"
    using gr1 gr2 by (rule newEvents_trans)
  have nl: "newLogs w ?w' = newLogs w ?w1 @ newLogs ?w1 ?w'"
    using gr1 gr2 by (rule newLogs_trans)
  have v1: "visits (newEvents w ?w1) = map sid (justExpired ?today w)"
    using ok by (rule graceEntryPass_visits)
  have v2: "visits (newEvents ?w1 ?w') = map sid (inGrace ?w1)"
    using ok by (rule inGracePass_visits)
  have "sid s \<notin> set (map sid (justExpired ?today w))"
  proof
    assume "sid s \<in> set (map sid (justExpired ?today w))"
    then obtain x where x: "x \<in> set (subs w)" "status x = Active" "sid x = sid s"
      by (auto simp: justExpired_def)
    then have "x = s" using d s(1) by (intro sid_inj [of "subs w"]) auto
    with x s(2) show False by simp
  qed
  then have c1: "count_list (visits (newEvents w ?w1)) (sid s) = 0"
    by (simp add: v1)
  have "distinct (map sid (inGrace ?w1))"
    using d1 by (simp add: inGrace_def distinct_map_filter)
  moreover have "sid s \<in> set (map sid (inGrace ?w1))"
    using s1 s(2) by (simp add: inGrace_def)
  ultimately have c2: "count_list (visits (newEvents ?w1 ?w')) (sid s) = 1"
    unfolding v2 by (rule count_list_distinct)
  have cnt: "count_list (visits (newEvents w ?w')) (sid s) = 1"
    by (simp add: ne c1 c2)
  have usr: "\<exists>u'. getUser ?w' ?t = Some u' \<and> graceDaysRemaining u' = Some 0
      \<and> (u_status u' = UExpired \<or> u_status u' = UBlocked \<and> (\<exists>m. deliver env ?t m = Blocked403))"
    if "getUser w ?t = Some u" for u
  proof -
    from that have "getUser ?w' ?t \<noteq> None"
      using grows_getUser_None [OF gr, of ?t] by simp
    then obtain u' where "getUser ?w' ?t = Some u'" by auto
    with fin(4) show ?thesis by (auto simp: removedUser_def)
  qed
  have d': "distinct (map sid (subs ?w'))"
    using gr d by (simp add: grows_def)
  have again: "getSub (worldOf (gracePeriodHandler env2 now2 ?w')) (sid s) = getSub ?w' (sid s)
      \<and> sid s \<notin> set (visits (newEvents ?w' (worldOf (gracePeriodHandler env2 now2 ?w'))))"
    for env2 now2
    using gracePeriodHandler_skips_expired [OF d' sub', of env2 now2] sub' by simp
  have "trace ?w' = trace w @ newEvents w ?w'" "adminLogs ?w' = adminLogs w @ newLogs w ?w'"
    using gr by (simp_all add: grows_iff)
  with run sub' cnt fin usr again show ?thesis
    by (intro exI [of _ ?w']) (simp add: ne nl graceExpiredLog_def)
qed

theorem grace_terminal_transition_witness:
  "storeOk env0 \<and> distinct (map sid (subs wTwoGrace))
   \<and> mkSub 1 100 (day 10) Grace \<in> set (subs wTwoGrace)
   \<and> status (mkSub 1 100 (day 10) Grace) = Grace
   \<and> GRACE_DAYS env0 \<le> daysSinceExpiry (startOfToday (nineAM 20)) (mkSub 1 100 (day 10) Grace)
   \<and> (\<exists>w'. gracePeriodHandler env0 (nineAM 20) wTwoGrace = Ret () w'
        \<and> getSub w' 1 = Some (mkSub 1 100 (day 10) Expired\<lparr>graceDaysUsed := 3\<rparr>)
        \<and> count_list (visits (newEvents wTwoGrace w')) 1 = 1
        \<and> BanChatMember 100 \<in> set (newEvents wTwoGrace w')
        \<and> SendMessage 100 AccessRemovedMsg \<in> set (newEvents wTwoGrace w')
        \<and> \<lparr>adminId = 0, actionType = ''ban_user'', targetUserId = Some 100,
             logDetails = ReasonOverdue ''Grace period expired'' 10\<rparr> \<in> set (newLogs wTwoGrace w')
        \<and> 100 \<notin> members w'
        \<and> 1 \<notin> set (visits (newEvents w' (worldOf (gracePeriodHandler env0 (nineAM 21) w')))))"
proof -
  let ?s = "mkSub 1 100 (day 10) Grace"
  have h1: "storeOk env0"
    by (simp add: storeOk_def env0_def)
  have h2: "distinct (map sid (subs wTwoGrace))"
    by (simp add: wTwoGrace_def mkSub_def)
  have h3: "?s \<in> set (subs wTwoGrace)"
    by (simp add: wTwoGrace_def)
  have h4: "status ?s = Grace"
    by (simp add: mkSub_def)
  have dd: "daysSinceExpiry (startOfToday (nineAM 20)) ?s = 10"
    by (simp add: daysSinceExpiry_def mkSub_def date_defs)
  have h5: "GRACE_DAYS env0 \<le> daysSinceExpiry (startOfToday (nineAM 20)) ?s"
    unfolding dd by (simp add: cfg_defs)
  have bk: "banOk env0 100"
    by (simp add: env0_def)
  have f: "sid ?s = 1" "telegramId ?s = 100" "GRACE_DAYS env0 = 3"
    "?s\<lparr>status := Expired, graceDaysUsed := 3\<rparr> = mkSub 1 100 (day 10) Expired\<lparr>graceDaysUsed := 3\<rparr>"
    by (simp_all add: mkSub_def cfg_defs)
  from grace_terminal_transition [OF h1 h2 h3 h4 h5] bk
  obtain w' where "gracePeriodHandler env0 (nineAM 20) wTwoGrace = Ret () w'"
    and "getSub w' 1 = Some (mkSub 1 100 (day 10) Expired\<lparr>graceDaysUsed := 3\<rparr>)"
    and "count_list (visits (newEvents wTwoGrace w')) 1 = 1"
    and "BanChatMember 100 \<in> set (newEvents wTwoGrace w')"
    and "SendMessage 100 AccessRemovedMsg \<in> set (newEvents wTwoGrace w')"
    and "\<lparr>adminId = 0, actionType = ''ban_user'', targetUserId = Some 100,
             logDetails = ReasonOverdue ''Grace period expired'' 10\<rparr> \<in> set (newLogs wTwoGrace w')"
    and "100 \<notin> members w'"
    and "1 \<notin> set (visits (newEvents w' (worldOf (gracePeriodHandler env0 (nineAM 21) w'))))"
    unfolding f dd by auto
  with h1 h2 h3 h4 h5 show ?thesis
    by blast
qed


lemma graceEntryPass_message:
  assumes ok: "storeOk env" and s: "s \<in> set (justExpired today w)"
  shows "SendMessage (telegramId s) (SubscriptionExpiredMsg (expiryDate s) (GRACE_DAYS env))
    \<in> set (newEvents w (worldOf (graceEntryPass env today w)))"
proof -
  let ?m = "SendMessage (telegramId s) (SubscriptionExpiredMsg (expiryDate s) (GRACE_DAYS env))"
  let ?Q = "\<lambda>w'. grows w w' \<and> ?m \<in> set (newEvents w w')"
  have "?Q (worldOf (forEach (graceEntryStep env) (justExpired today w) w))"
  proof (rule forEach_establish [where I = "grows w" and ?x0.0 = s])
    show "s \<in> set (justExpired today w)" by (rule s)
    show "grows w w" by simp
  next
    fix x and w' :: world
    show "resolved (graceEntryStep env x w')"
      using ok by (rule graceEntryStep_resolved)
  next
    fix x and w' :: world
    assume "grows w w'"
    then show "grows w (worldOf (graceEntryStep env x w'))"
      using graceEntryStep_grows [of w' env x] by (blast intro: grows_trans)
  next
    fix wa :: world
    assume ga: "grows w wa"
    let ?ws = "worldOf (graceEntryStep env s wa)"
    have gs: "grows wa ?ws"
      using graceEntryStep_grows [of wa env s] by simp
    have "?m \<in> set (newEvents wa ?ws)"
      using ok by (subst newEvents_eq [OF graceEntryStep_trace]) simp_all
    moreover have "newEvents w ?ws = newEvents w wa @ newEvents wa ?ws"
      using ga gs by (rule newEvents_trans)
    moreover have "grows w ?ws"
      using ga gs by (rule grows_trans)
    ultimately show "?Q ?ws" by simp
  next
    fix x and w' :: world
    assume Q: "?Q w'"
    let ?w2 = "worldOf (graceEntryStep env x w')"
    have g: "grows w' ?w2"
      using graceEntryStep_grows [of w' env x] by simp
    from Q have gw: "grows w w'" by simp
    have "newEvents w ?w2 = newEvents w w' @ newEvents w' ?w2"
      using gw g by (rule newEvents_trans)
    moreover have "grows w ?w2"
      using gw g by (rule grows_trans)
    ultimately show "?Q ?w2"
      using Q by simp
  qed
  then show ?thesis
    using ok by (simp add: graceEntryPass_def)
qed

lemma overdue_expired:
  assumes "0 < g" and "g \<le> daysSinceExpiry today s"
  shows "expiryDate s < today"
proof -
  have "0 < (today - expiryDate s) div msPerDay"
    using assms by (simp add: daysSinceExpiry_def)
  then have "msPerDay \<le> today - expiryDate s"
    by (simp add: pos_imp_zdiv_pos_iff msPerDay_def)
  then show ?thesis
    by (simp add: msPerDay_def)
qed

text \<open>
  C10. Let a subscription still be active although its expiry is \<^verbatim>\<open>GRACE_PERIOD_DAYS\<close>
  (a positive number) or more days before today. Then, the database working, a single
  run of the grace job works on it twice. The first loop visits it and sends the
  "expired, grace period started" message; after that, in the same run, the second
  loop visits it, calls \<^verbatim>\<open>banChatMember\<close> and sends the removal notice. At the end of the
  run the subscription is expired with \<^verbatim>\<open>graceDaysUsed = GRACE_PERIOD_DAYS\<close> and the user
  has no grace days left: there has been no day of grace.
\<close>

theorem overdue_active_removed_in_same_run:
  assumes ok: "storeOk env" and d: "distinct (map sid (subs w))"
    and s: "s \<in> set (subs w)" "status s = Active"
    and g: "0 < GRACE_DAYS env" "GRACE_DAYS env \<le> daysSinceExpiry (startOfToday now) s"
  shows "\<exists>w' es1 es2. gracePeriodHandler env now w = Ret () w'
    \<and> trace w' = trace w @ es1 @ es2
    \<and> count_list (visits es1) (sid s) = 1
    \<and> SendMessage (telegramId s) (SubscriptionExpiredMsg (expiryDate s) (GRACE_DAYS env)) \<in> set es1
    \<and> count_list (visits es2) (sid s) = 1
    \<and> BanChatMember (telegramId s) \<in> set es2
    \<and> SendMessage (telegramId s) AccessRemovedMsg \<in> set es2
    \<and> getSub w' (sid s) = Some (s\<lparr>status := Expired, graceDaysUsed := GRACE_DAYS env\<rparr>)
    \<and> (\<forall>u. getUser w (telegramId s) = Some u \<longrightarrow>
          (\<exists>u'. getUser w' (telegramId s) = Some u' \<and> graceDaysRemaining u' = Some 0))
    \<and> (banOk env (telegramId s) \<longrightarrow> telegramId s \<notin> members w')"
proof -
  let ?today = "startOfToday now" and ?t = "telegramId s"
  let ?w1 = "worldOf (graceEntryPass env ?today w)"
  let ?w' = "worldOf (inGracePass env ?today ?w1)"
  let ?e = "\<lambda>s. if status s = Active \<and> expiryDate s < ?today then toGrace s else s"
  let ?g = "\<lambda>s. if status s = Grace then graceWrite env ?today s s else s"
  let ?s1 = "toGrace s"
  let ?s' = "s\<lparr>status := Expired, graceDaysUsed := GRACE_DAYS env\<rparr>"
  have ex: "expiryDate s < ?today"
    using g by (rule overdue_expired)
  have sj: "s \<in> set (justExpired ?today w)"
    using s ex by (simp add: justExpired_def)
  have run: "gracePeriodHandler env now w = Ret () ?w'"
    using gracePeriodHandler_ok [OF ok, of now w] resolved_Ret by metis
  have sw1: "subs ?w1 = map ?e (subs w)"
    using ok d by (rule graceEntryPass_subs)
  have gr1: "grows w ?w1"
    using graceEntryPass_grows [of w env ?today] by simp
  have d1: "distinct (map sid (subs ?w1))"
    using gr1 d by (simp add: grows_def)
  have es: "?e s = ?s1"
    using s(2) ex by simp
  have "?e s \<in> set (map ?e (subs w))"
    using s(1) by simp
  then have s1: "?s1 \<in> set (subs ?w1)"
    unfolding sw1 es .
  have f1: "status ?s1 = Grace" "sid ?s1 = sid s" "telegramId ?s1 = ?t"
    "daysSinceExpiry ?today ?s1 = daysSinceExpiry ?today s"
    by (simp_all add: toGrace_def daysSinceExpiry_def)
  have g1: "GRACE_DAYS env \<le> daysSinceExpiry ?today ?s1"
    using g(2) by (simp add: f1)
  have sw': "subs ?w' = map ?g (subs ?w1)"
    using ok d1 by (rule inGracePass_subs)
  have gr2: "grows ?w1 ?w'"
    using inGracePass_grows [of ?w1 env ?today] by simp
  have gr: "grows w ?w'"
    using gr1 gr2 by (rule grows_trans)
  have gs: "?g ?s1 = ?s'"
    using g1 by (simp add: graceWrite_def toGrace_def)
  have "getSub ?w' (sid ?s1) = Some (?g ?s1)"
    by (rule getSub_map [OF d1 s1 _ sw']) simp
  then have sub': "getSub ?w' (sid s) = Some ?s'"
    by (simp only: gs f1(2))
  have fin: "BanChatMember ?t \<in> set (newEvents ?w1 ?w')"
    "SendMessage ?t AccessRemovedMsg \<in> set (newEvents ?w1 ?w')"
    "removedUser env ?t (getUser ?w' ?t)"
    "banOk env ?t \<longrightarrow> ?t \<notin> members ?w'"
    using inGracePass_terminal [OF ok d1 s1 f1(1) g1] by (simp_all add: f1)
  have msg: "SendMessage ?t (SubscriptionExpiredMsg (expiryDate s) (GRACE_DAYS env))
      \<in> set (newEvents w ?w1)"
    using ok sj by (rule graceEntryPass_message)
  have v1: "visits (newEvents w ?w1) = map sid (justExpired ?today w)"
    using ok by (rule graceEntryPass_visits)
  have v2: "visits (newEvents ?w1 ?w') = map sid (inGrace ?w1)"
    using ok by (rule inGracePass_visits)
  have "distinct (map sid (justExpired ?today w))"
    using d by (simp add: justExpired_def distinct_map_filter)
  moreover have "sid s \<in> set (map sid (justExpired ?today w))"
    using sj by simp
  ultimately have c1: "count_list (visits (newEvents w ?w1)) (sid s) = 1"
    unfolding v1 by (rule count_list_distinct)
  have "distinct (map sid (inGrace ?w1))"
    using d1 by (simp add: inGrace_def distinct_map_filter)
  moreover have "sid ?s1 \<in> set (map sid (inGrace ?w1))"
  proof -
    have "?s1 \<in> set (inGrace ?w1)"
      using s1 f1(1) by (simp add: inGrace_def)
    then show ?thesis
      unfolding set_map by (rule imageI)
  qed
  ultimately have c2: "count_list (visits (newEvents ?w1 ?w')) (sid s) = 1"
    unfolding v2 f1 by (rule count_list_distinct)
  have usr: "\<exists>u'. getUser ?w' ?t = Some u' \<and> graceDaysRemaining u' = Some 0"
    if "getUser w ?t = Some u" for u
  proof -
    from that have "getUser ?w' ?t \<noteq> None"
      using grows_getUser_None [OF gr, of ?t] by simp
    then obtain u' where "getUser ?w' ?t = Some u'" by auto
    with fin(3) show ?thesis by (auto simp: removedUser_def)
  qed
  have "trace ?w' = trace w @ newEvents w ?w1 @ newEvents ?w1 ?w'"
    using gr1 gr2 by (simp add: grows_iff)
  with run sub' c1 c2 msg fin usr show ?thesis
    by (intro exI [of _ ?w'] exI [of _ "newEvents w ?w1"] exI [of _ "newEvents ?w1 ?w'"]) simp
qed

text \<open>
  The Telegram calls of the grace job (\<open>safeSend\<close>, \<open>banFromGroup\<close>, \<open>logToChannel\<close>) catch
  their own errors. So when no database operation throws, whatever Telegram answers for
  any candidate, the run resolves, the second loop visits every subscription that was in
  grace or entered grace in the first loop, in order, and every overdue one among them
  ends expired.
\<close>

lemma gracePeriodHandler_isolates_telegram:
  assumes ok: "storeOk env" and d: "distinct (map sid (subs w))"
  shows "\<exists>w'. gracePeriodHandler env now w = Ret () w'
    \<and> visits (newEvents w w') = map sid (justExpired (startOfToday now) w)
        @ map sid (filter (\<lambda>s. status s = Grace \<or> status s = Active \<and> expiryDate s < startOfToday now)
             (subs w))
    \<and> (\<forall>s\<in>set (subs w).
          (status s = Grace \<or> status s = Active \<and> expiryDate s < startOfToday now)
          \<and> GRACE_DAYS env \<le> daysSinceExpiry (startOfToday now) s
          \<longrightarrow> getSub w' (sid s) = Some (s\<lparr>status := Expired, graceDaysUsed := GRACE_DAYS env\<rparr>))"
proof -
  let ?today = "startOfToday now"
  let ?w1 = "worldOf (graceEntryPass env ?today w)"
  let ?w' = "worldOf (inGracePass env ?today ?w1)"
  let ?e = "\<lambda>s. if status s = Active \<and> expiryDate s < ?today then toGrace s else s"
  let ?g = "\<lambda>s. if status s = Grace then graceWrite env ?today s s else s"
  have run: "gracePeriodHandler env now w = Ret () ?w'"
    using gracePeriodHandler_ok [OF ok, of now w] resolved_Ret by metis
  have sw1: "subs ?w1 = map ?e (subs w)"
    using ok d by (rule graceEntryPass_subs)
  have gr1: "grows w ?w1"
    using graceEntryPass_grows [of w env ?today] by simp
  have d1: "distinct (map sid (subs ?w1))"
    using gr1 d by (simp add: grows_def)
  have sw': "subs ?w' = map ?g (subs ?w1)"
    using ok d1 by (rule inGracePass_subs)
  have gr2: "grows ?w1 ?w'"
    using inGracePass_grows [of ?w1 env ?today] by simp
  have v1: "visits (newEvents w ?w1) = map sid (justExpired ?today w)"
    using ok by (rule graceEntryPass_visits)
  have pe: "(status (?e s) = Grace)
      = (status s = Grace \<or> status s = Active \<and> expiryDate s < ?today)" for s
    by (auto simp: toGrace_def)
  have se: "sid (?e s) = sid s" for s
    by (simp add: toGrace_def)
  have "inGrace ?w1 = map ?e (filter (\<lambda>s. status (?e s) = Grace) (subs w))"
    unfolding inGrace_def sw1 filter_map by (simp add: comp_def)
  then have "map sid (inGrace ?w1)
      = map sid (filter (\<lambda>s. status s = Grace \<or> status s = Active \<and> expiryDate s < ?today) (subs w))"
    unfolding pe by (simp add: comp_def se)
  then have v2: "visits (newEvents ?w1 ?w')
      = map sid (filter (\<lambda>s. status s = Grace \<or> status s = Active \<and> expiryDate s < ?today) (subs w))"
    using ok by (simp add: inGracePass_visits)
  have ne: "newEvents w ?w' = newEvents w ?w1 @ newEvents ?w1 ?w'"
    using gr1 gr2 by (rule newEvents_trans)
  have fin: "getSub ?w' (sid s) = Some (s\<lparr>status := Expired, graceDaysUsed := GRACE_DAYS env\<rparr>)"
    if sin: "s \<in> set (subs w)"
      and st: "status s = Grace \<or> status s = Active \<and> expiryDate s < ?today"
      and due: "GRACE_DAYS env \<le> daysSinceExpiry ?today s" for s
  proof -
    have "?e s \<in> set (subs ?w1)"
      unfolding sw1 using sin by simp
    then have "getSub ?w' (sid (?e s)) = Some (?g (?e s))"
      by (rule getSub_map [OF d1 _ _ sw']) simp
    moreover have "sid (?e s) = sid s"
      by (simp add: toGrace_def)
    moreover have "?g (?e s) = s\<lparr>status := Expired, graceDaysUsed := GRACE_DAYS env\<rparr>"
      using st due by (auto simp: toGrace_def graceWrite_def daysSinceExpiry_def)
    ultimately show ?thesis by simp
  qed
  show ?thesis
    using run v1 v2 fin by (intro exI [of _ ?w']) (simp add: ne)
qed

text \<open>
  C7 as stated fails. Subscriptions 1 and 2 are both in grace and ten days overdue. When
  saving subscription 1 throws, the run rejects after the ban of user 100: subscription 2
  is never visited and stays in grace. When writing the audit entry for user 100 throws,
  subscription 1 is expired but subscription 2 is again not visited. With a working
  database both are visited and expired.
\<close>

theorem grace_run_stops_at_store_error:
  "map sid (inGrace wTwoGrace) = [1, 2]
   \<and> \<not> resolved (gracePeriodHandler envSaveFails (nineAM 20) wTwoGrace)
   \<and> map status (subs (worldOf (gracePeriodHandler envSaveFails (nineAM 20) wTwoGrace))) = [Grace, Grace]
   \<and> trace (worldOf (gracePeriodHandler envSaveFails (nineAM 20) wTwoGrace)) = [Visit 1, BanChatMember 100]
   \<and> \<not> resolved (gracePeriodHandler envAuditFails (nineAM 20) wTwoGrace)
   \<and> map status (subs (worldOf (gracePeriodHandler envAuditFails (nineAM 20) wTwoGrace))) = [Expired, Grace]
   \<and> visits (trace (worldOf (gracePeriodHandler envAuditFails (nineAM 20) wTwoGrace))) = [1]
   \<and> resolved (gracePeriodHandler env0 (nineAM 20) wTwoGrace)
   \<and> map status (subs (worldOf (gracePeriodHandler env0 (nineAM 20) wTwoGrace))) = [Expired, Expired]
   \<and> visits (trace (worldOf (gracePeriodHandler env0 (nineAM 20) wTwoGrace))) = [1, 2]"
  by (simp add: wTwoGrace_def envSaveFails_def envAuditFails_def mkSub_def alice_def bob_def
      grace_defs prim_defs date_defs cfg_defs)


lemma mkSub_fields [simp]:
  "sid (mkSub i t e st) = i" "telegramId (mkSub i t e st) = t"
  "expiryDate (mkSub i t e st) = e" "status (mkSub i t e st) = st"
  "reminderFlags (mkSub i t e st) f = False"
  "(mkSub i t e st)\<lparr>status := st'\<rparr> = mkSub i t e st'"
  by (simp_all add: mkSub_def)

lemma daysSinceExpiry_mkSub [simp]:
  "daysSinceExpiry today (mkSub i t e st) = (today - e) div msPerDay"
  by (simp add: daysSinceExpiry_def)


theorem overdue_active_removed_in_same_run_witness:
  "storeOk env0 \<and> distinct (map sid (subs wOverdue))
   \<and> mkSub 1 100 (day 10) Active \<in> set (subs wOverdue)
   \<and> status (mkSub 1 100 (day 10) Active) = Active
   \<and> 0 < GRACE_DAYS env0
   \<and> GRACE_DAYS env0 \<le> daysSinceExpiry (startOfToday (nineAM 20)) (mkSub 1 100 (day 10) Active)
   \<and> (\<exists>w' es1 es2. gracePeriodHandler env0 (nineAM 20) wOverdue = Ret () w'
        \<and> trace w' = es1 @ es2
        \<and> SendMessage 100 (SubscriptionExpiredMsg (day 10) 3) \<in> set es1
        \<and> BanChatMember 100 \<in> set es2
        \<and> SendMessage 100 AccessRemovedMsg \<in> set es2
        \<and> getSub w' 1 = Some (mkSub 1 100 (day 10) Expired\<lparr>graceDaysUsed := 3\<rparr>)
        \<and> 100 \<notin> members w')"
proof -
  let ?s = "mkSub 1 100 (day 10) Active"
  have h1: "storeOk env0"
    by (simp add: storeOk_def env0_def)
  have h2: "distinct (map sid (subs wOverdue))"
    by (simp add: wOverdue_def)
  have h3: "?s \<in> set (subs wOverdue)"
    by (simp add: wOverdue_def)
  have h4: "status ?s = Active"
    by simp
  have dd: "daysSinceExpiry (startOfToday (nineAM 20)) ?s = 10"
    by (simp add: date_defs)
  have gd: "GRACE_DAYS env0 = 3"
    by (simp add: cfg_defs)
  have h5: "0 < GRACE_DAYS env0"
    unfolding gd by simp
  have h6: "GRACE_DAYS env0 \<le> daysSinceExpiry (startOfToday (nineAM 20)) ?s"
    unfolding dd gd by simp
  have bk: "banOk env0 100"
    by (simp add: env0_def)
  have f: "sid ?s = 1" "telegramId ?s = 100" "expiryDate ?s = day 10" "trace wOverdue = []"
    "?s\<lparr>status := Expired, graceDaysUsed := 3\<rparr> = mkSub 1 100 (day 10) Expired\<lparr>graceDaysUsed := 3\<rparr>"
    by (simp_all add: wOverdue_def)
  from overdue_active_removed_in_same_run [OF h1 h2 h3 h4 h5 h6] bk
  obtain w' es1 es2 where "gracePeriodHandler env0 (nineAM 20) wOverdue = Ret () w'"
    and "trace w' = es1 @ es2"
    and "SendMessage 100 (SubscriptionExpiredMsg (day 10) 3) \<in> set es1"
    and "BanChatMember 100 \<in> set es2"
    and "SendMessage 100 AccessRemovedMsg \<in> set es2"
    and "getSub w' 1 = Some (mkSub 1 100 (day 10) Expired\<lparr>graceDaysUsed := 3\<rparr>)"
    and "100 \<notin> members w'"
    unfolding f gd by auto
  with h1 h2 h3 h4 h5 h6 show ?thesis
    by blast
qed

section \<open>The reconciler\<close>

lemma groupOk_simps [simp]: "groupOk env \<Longrightarrow> banOk env t" "groupOk env \<Longrightarrow> memberQueryOk env t"
  by (simp_all add: groupOk_def)

lemma monitorActiveStep_resolved: "storeOk env \<Longrightarrow> resolved (monitorActiveStep env x w)"
  by (simp add: monitorActiveStep_def Let_def generateInviteLink_def split: option.splits)

lemma monitorActiveStep_keeps:
  "members (worldOf (monitorActiveStep env x w)) = members w
   \<and> map (\<lambda>s. (telegramId s, status s)) (subs (worldOf (monitorActiveStep env x w)))
       = map (\<lambda>s. (telegramId s, status s)) (subs w)"
  by (simp add: monitorActiveStep_def Let_def generateInviteLink_def map_updateFirst
      split: option.splits)

lemma underProvisionedPass_resolved: "storeOk env \<Longrightarrow> resolved (underProvisionedPass env now w)"
  by (simp add: underProvisionedPass_def forEach_resolved monitorActiveStep_resolved)

lemma underProvisionedPass_keeps:
  "members (worldOf (underProvisionedPass env now w)) = members w
   \<and> map (\<lambda>s. (telegramId s, status s)) (subs (worldOf (underProvisionedPass env now w)))
       = map (\<lambda>s. (telegramId s, status s)) (subs w)"
proof -
  let ?I = "\<lambda>w'. members w' = members w
    \<and> map (\<lambda>s. (telegramId s, status s)) (subs w') = map (\<lambda>s. (telegramId s, status s)) (subs w)"
  have "?I (worldOf (forEach (monitorActiveStep env) (activeSubs now w) w))"
    by (rule forEach_invariant [where I = ?I]) (simp_all add: monitorActiveStep_keeps)
  then show ?thesis
    by (simp add: underProvisionedPass_def)
qed

lemma monitorExpiredStep_resolved: "resolved (monitorExpiredStep env x w)"
  by (simp add: monitorExpiredStep_def Let_def)

lemma monitorExpiredStep_members:
  "groupOk env \<Longrightarrow> members (worldOf (monitorExpiredStep env x w)) = members w - {telegramId x}"
  by (auto simp: monitorExpiredStep_def Let_def isGroupMember_def)

lemma monitorExpiredStep_subs: "subs (worldOf (monitorExpiredStep env x w)) = subs w"
  by (simp add: monitorExpiredStep_def Let_def)

lemma forEach_monitorExpiredStep_members:
  "groupOk env \<Longrightarrow>
   members (worldOf (forEach (monitorExpiredStep env) xs w)) = members w - telegramId ` set xs"
proof (induction xs arbitrary: w)
  case Nil
  then show ?case by simp
next
  case (Cons x xs)
  have "forEach (monitorExpiredStep env) (x # xs) w
      = forEach (monitorExpiredStep env) xs (worldOf (monitorExpiredStep env x w))"
    by (rule forEach_Cons_resolved) (rule monitorExpiredStep_resolved)
  then show ?case
    using Cons by (auto simp: monitorExpiredStep_members)
qed

lemma overProvisionedPass_members:
  assumes "storeOk env" and "groupOk env"
  shows "members (worldOf (overProvisionedPass env w)) = members w - terminalIds w"
    and "subs (worldOf (overProvisionedPass env w)) = subs w"
proof -
  show "members (worldOf (overProvisionedPass env w)) = members w - terminalIds w"
    using assms by (simp add: overProvisionedPass_def forEach_monitorExpiredStep_members terminalIds_def)
  have "subs (worldOf (forEach (monitorExpiredStep env) (expiredUsers w) w)) = subs w"
    by (rule forEach_invariant [where I = "\<lambda>w'. subs w' = subs w"])
      (simp_all add: monitorExpiredStep_subs)
  then show "subs (worldOf (overProvisionedPass env w)) = subs w"
    using assms by (simp add: overProvisionedPass_def)
qed

lemma terminalIds_eq:
  "terminalIds w = {t. (t, Expired) \<in> set (map (\<lambda>s. (telegramId s, status s)) (subs w))
                     \<or> (t, Cancelled) \<in> set (map (\<lambda>s. (telegramId s, status s)) (subs w))}"
  by (auto simp: terminalIds_def expiredUsers_def image_iff)

lemma terminalIds_cong:
  "map (\<lambda>s. (telegramId s, status s)) (subs w') = map (\<lambda>s. (telegramId s, status s)) (subs w)
   \<Longrightarrow> terminalIds w' = terminalIds w"
  by (simp only: terminalIds_eq)

lemma membershipMonitor_members:
  assumes "storeOk env" and "groupOk env"
  shows "members (worldOf (membershipMonitor env now w)) = members w - terminalIds w"
    and "terminalIds (worldOf (membershipMonitor env now w)) = terminalIds w"
    and "resolved (membershipMonitor env now w)"
proof -
  let ?w1 = "worldOf (underProvisionedPass env now w)"
  have "underProvisionedPass env now w = Ret () ?w1"
    using assms(1) by (intro resolved_Ret underProvisionedPass_resolved)
  then have eq: "membershipMonitor env now w = overProvisionedPass env ?w1"
    unfolding membershipMonitor_def by (metis andThen_Ret)
  have t1: "terminalIds ?w1 = terminalIds w"
    using underProvisionedPass_keeps [of env now w] by (intro terminalIds_cong) simp
  show "members (worldOf (membershipMonitor env now w)) = members w - terminalIds w"
    unfolding eq using assms t1 underProvisionedPass_keeps [of env now w]
    by (simp add: overProvisionedPass_members)
  have "map (\<lambda>s. (telegramId s, status s)) (subs (worldOf (overProvisionedPass env ?w1)))
      = map (\<lambda>s. (telegramId s, status s)) (subs w)"
    using assms underProvisionedPass_keeps [of env now w] by (simp add: overProvisionedPass_members)
  then show "terminalIds (worldOf (membershipMonitor env now w)) = terminalIds w"
    unfolding eq by (rule terminalIds_cong)
  show "resolved (membershipMonitor env now w)"
    unfolding eq using assms(1) by (simp add: overProvisionedPass_def forEach_resolved monitorExpiredStep_resolved)
qed

lemma monitorRuns_members:
  assumes "\<forall>r\<in>set runs. storeOk (fst r) \<and> groupOk (fst r)"
  shows "members (monitorRuns runs w) = (if runs = [] then members w else members w - terminalIds w)
    \<and> terminalIds (monitorRuns runs w) = terminalIds w"
  using assms
proof (induction runs arbitrary: w)
  case Nil
  then show ?case by simp
next
  case (Cons r runs)
  obtain env now where r: "r = (env, now)" by (cases r)
  let ?w1 = "worldOf (membershipMonitor env now w)"
  have ok: "storeOk env" "groupOk env"
    using Cons.prems r by auto
  have m1: "members ?w1 = members w - terminalIds w" and t1: "terminalIds ?w1 = terminalIds w"
    using ok by (simp_all add: membershipMonitor_members)
  have "members (monitorRuns runs ?w1) = (if runs = [] then members ?w1 else members ?w1 - terminalIds ?w1)
    \<and> terminalIds (monitorRuns runs ?w1) = terminalIds ?w1"
    using Cons.prems by (intro Cons.IH) auto
  then show ?case
    using r m1 t1 by auto
qed

text \<open>
  C6. Take any world and any number (at least one) of runs of the reconciler, at any
  times, in environments where the database and the Telegram group API work. The group
  membership they leave is always the same set: the members of the start without the
  users who own an expired or cancelled subscription. It is reached by the first run,
  and one more run does not change it. (The invites of the first pass do not change the
  membership; a user joins by redeeming one, which is not an action of the reconciler.)
\<close>

theorem reconciliation_converges:
  assumes "\<forall>r\<in>set runs. storeOk (fst r) \<and> groupOk (fst r)" and "runs \<noteq> []"
  shows "members (monitorRuns runs w)
      = members w - {t. \<exists>s\<in>set (subs w). telegramId s = t \<and> (status s = Expired \<or> status s = Cancelled)}
    \<and> (\<forall>env now. storeOk env \<and> groupOk env \<longrightarrow>
          members (worldOf (membershipMonitor env now (monitorRuns runs w)))
            = members (monitorRuns runs w))"
proof -
  have t: "terminalIds w
      = {t. \<exists>s\<in>set (subs w). telegramId s = t \<and> (status s = Expired \<or> status s = Cancelled)}"
    by (auto simp: terminalIds_def expiredUsers_def)
  have m: "members (monitorRuns runs w) = members w - terminalIds w"
    and k: "terminalIds (monitorRuns runs w) = terminalIds w"
    using monitorRuns_members [OF assms(1), of w] assms(2) by simp_all
  have "members (worldOf (membershipMonitor env now (monitorRuns runs w))) = members (monitorRuns runs w)"
    if "storeOk env" "groupOk env" for env now
    using that by (auto simp: membershipMonitor_members m k)
  with m show ?thesis
    unfolding t by blast
qed

theorem reconciliation_converges_witness:
  "storeOk env0 \<and> groupOk env0
   \<and> members (monitorRuns [(env0, day 20)] wDrift) = {200}
   \<and> members (monitorRuns [(env0, day 20), (env0, day 21)] wDrift) = {200}"
proof -
  have ok: "storeOk env0" "groupOk env0"
    by (simp_all add: storeOk_def groupOk_def env0_def)
  have h1: "\<forall>r\<in>set [(env0, day 20), (env0, day 21)]. storeOk (fst r) \<and> groupOk (fst r)"
    and h1': "\<forall>r\<in>set [(env0, day 20)]. storeOk (fst r) \<and> groupOk (fst r)"
    using ok by simp_all
  have h2: "[(env0, day 20), (env0, day 21)] \<noteq> []" and h2': "[(env0, day 20)] \<noteq> []"
    by simp_all
  have e: "members wDrift - {t. \<exists>s\<in>set (subs wDrift). telegramId s = t \<and> (status s = Expired \<or> status s = Cancelled)}
      = {200}"
    by (auto simp: wDrift_def)
  show ?thesis
    using ok reconciliation_converges [OF h1 h2, of wDrift]
      reconciliation_converges [OF h1' h2', of wDrift]
    unfolding e by blast
qed


section \<open>The reminder job\<close>

lemma startOfToday_mod [simp]: "startOfToday now mod msPerDay = 0"
  by (simp add: startOfToday_def mod_diff_left_eq [symmetric] minus_mod_self2)

lemma reminder_window:
  "setHoursEndOfDay (addDays (startOfToday now) days) = startOfToday now + days * msPerDay + (msPerDay - 1)"
proof -
  have "(startOfToday now + days * msPerDay) mod msPerDay = 0"
    by (simp add: mod_add_left_eq [symmetric])
  then show ?thesis
    by (simp add: setHoursEndOfDay_def addDays_def)
qed

lemma div_unique_int:
  fixes x D d :: int
  assumes "0 < D"
  shows "x div D = d \<longleftrightarrow> d * D \<le> x \<and> x \<le> d * D + (D - 1)"
proof
  assume "x div D = d"
  then have "x = d * D + x mod D"
    by (metis div_mult_mod_eq)
  moreover have "0 \<le> x mod D" "x mod D < D"
    using assms by simp_all
  ultimately show "d * D \<le> x \<and> x \<le> d * D + (D - 1)"
    by linarith
next
  assume b: "d * D \<le> x \<and> x \<le> d * D + (D - 1)"
  have "x = D * d + (x - d * D)"
    by (simp add: algebra_simps)
  moreover have "0 \<le> x - d * D" "x - d * D < D"
    using b by linarith+
  ultimately show "x div D = d"
    by (rule int_div_pos_eq)
qed

lemma reminderDue_iff:
  "reminderDue now days flg s \<longleftrightarrow>
     status s = Active \<and> (expiryDate s - startOfToday now) div msPerDay = days \<and> \<not> reminderFlags s flg"
proof -
  have D: "0 < msPerDay" by (simp add: msPerDay_def)
  have "(expiryDate s - startOfToday now) div msPerDay = days
      \<longleftrightarrow> days * msPerDay \<le> expiryDate s - startOfToday now
        \<and> expiryDate s - startOfToday now \<le> days * msPerDay + (msPerDay - 1)"
    using D by (rule div_unique_int)
  then show ?thesis
    unfolding reminderDue_def Let_def reminder_window
    by (auto simp: addDays_def)
qed

subsection \<open>The steps of the reminder job\<close>

lemma reminderStep_resolved: "storeOk env \<Longrightarrow> resolved (reminderStep env days flg x w)"
  by (simp add: reminderStep_def safeSend_def Let_def split: delivery.splits)

lemma sid_remindWrite [simp]: "sid (remindWrite env days flg x s) = sid s"
  by (simp add: remindWrite_def)

lemma remindWrite_branches:
  "remindWrite env days flg x =
     (if deliver env (telegramId x) (ReminderMsg days (expiryDate x)) = Delivered
      then (\<lambda>s. s\<lparr>reminderFlags := (reminderFlags s)(flg := True)\<rparr>) else (\<lambda>s. s))"
  by (rule ext) (simp add: remindWrite_def)

lemma reminderStep_subs:
  "storeOk env \<Longrightarrow>
   subs (worldOf (reminderStep env days flg x w))
     = updateFirst (\<lambda>s. sid s = sid x) (remindWrite env days flg x) (subs w)"
  unfolding remindWrite_branches
  by (simp add: reminderStep_def safeSend_def Let_def split: delivery.splits)

lemma reminderStep_grows:
  "grows w (worldOf (reminderStep env days flg x w))
   \<and> visits (newEvents w (worldOf (reminderStep env days flg x w))) = [sid x]"
  by (simp add: reminderStep_def safeSend_def Let_def grows_def newEvents_def
      handleBlockedUser_trace handleBlockedUser_adminLogs handleBlockedUser_users map_updateFirst
      split: delivery.splits)

lemma reminderStep_trace:
  "\<exists>es. trace (worldOf (reminderStep env days flg x w))
     = trace w @ Visit (sid x) # SendMessage (telegramId x) (ReminderMsg days (expiryDate x)) # es"
  by (simp add: reminderStep_def safeSend_def Let_def handleBlockedUser_trace split: delivery.splits)

lemma getSub_handleBlockedUser [simp]: "getSub (handleBlockedUser env t w) i = getSub w i"
  by (simp add: getSub_def)

lemma reminderStep_getSub:
  "getSub (worldOf (reminderStep env days flg x w)) i = getSub w i
   \<or> (\<exists>r. getSub w i = Some r
        \<and> getSub (worldOf (reminderStep env days flg x w)) i
            = Some (r\<lparr>reminderFlags := (reminderFlags r)(flg := True)\<rparr>))"
  by (cases "getSub w i")
    (auto simp add: reminderStep_def safeSend_def Let_def getSub_updateSub split: delivery.splits)

subsection \<open>One checkpoint of the reminder job\<close>

lemma reminderCheckpoint_resolved:
  "storeOk env \<Longrightarrow> resolved (reminderCheckpoint env now cp w)"
  by (cases cp) (simp add: reminderCheckpoint_def forEach_resolved reminderStep_resolved)

lemma reminderCheckpoint_subs:
  assumes "storeOk env" and "distinct (map sid (subs w))"
  shows "subs (worldOf (reminderCheckpoint env now (days, flg) w))
    = map (\<lambda>s. if reminderDue now days flg s then remindWrite env days flg s s else s) (subs w)"
  using assms
  by (simp add: reminderCheckpoint_def forEach_subs_filter [where g = "remindWrite env days flg"]
      reminderStep_resolved reminderStep_subs)

lemma reminderCheckpoint_grows:
  "grows w (worldOf (reminderCheckpoint env now (days, flg) w))
   \<and> set (visits (newEvents w (worldOf (reminderCheckpoint env now (days, flg) w))))
       \<subseteq> sid ` set (filter (reminderDue now days flg) (subs w))"
  using forEach_grows [of "filter (reminderDue now days flg) (subs w)" "reminderStep env days flg" sid w]
  by (simp add: reminderCheckpoint_def reminderStep_grows)

lemma reminderCheckpoint_getSub:
  assumes "storeOk env" and "distinct (map sid (subs w))" and "getSub w i = Some r"
  shows "getSub (worldOf (reminderCheckpoint env now (days, flg) w)) i
    = Some (if reminderDue now days flg r then remindWrite env days flg r r else r)"
proof -
  let ?h = "\<lambda>s. if reminderDue now days flg s then remindWrite env days flg s s else s"
  from assms(3) have r: "r \<in> set (subs w)" "sid r = i"
    using getSub_mem by auto
  have "getSub (worldOf (reminderCheckpoint env now (days, flg) w)) (sid r) = Some (?h r)"
    by (rule getSub_map [OF assms(2) r(1) _ reminderCheckpoint_subs [OF assms(1,2)]]) simp
  with r show ?thesis by simp
qed

lemma reminderCheckpoint_sends:
  assumes ok: "storeOk env" and s: "s \<in> set (subs w)" "reminderDue now days flg s"
  shows "SendMessage (telegramId s) (ReminderMsg days (expiryDate s))
    \<in> set (newEvents w (worldOf (reminderCheckpoint env now (days, flg) w)))"
proof -
  let ?m = "SendMessage (telegramId s) (ReminderMsg days (expiryDate s))"
  let ?xs = "filter (reminderDue now days flg) (subs w)"
  let ?Q = "\<lambda>w'. grows w w' \<and> ?m \<in> set (newEvents w w')"
  have "?Q (worldOf (forEach (reminderStep env days flg) ?xs w))"
  proof (rule forEach_establish [where I = "grows w" and ?x0.0 = s])
    show "s \<in> set ?xs" using s by simp
    show "grows w w" by simp
  next
    fix x and w' :: world
    show "resolved (reminderStep env days flg x w')"
      using ok by (rule reminderStep_resolved)
  next
    fix x and w' :: world
    assume "grows w w'"
    then show "grows w (worldOf (reminderStep env days flg x w'))"
      using reminderStep_grows [of w' env days flg x] by (blast intro: grows_trans)
  next
    fix wa :: world
    assume ga: "grows w wa"
    let ?ws = "worldOf (reminderStep env days flg s wa)"
    have gs: "grows wa ?ws"
      using reminderStep_grows [of wa env days flg s] by simp
    obtain es where "trace ?ws = trace wa @ Visit (sid s) # ?m # es"
      using reminderStep_trace [of env days flg s wa] by blast
    then have "newEvents wa ?ws = Visit (sid s) # ?m # es"
      by (rule newEvents_eq)
    moreover have "newEvents w ?ws = newEvents w wa @ newEvents wa ?ws"
      using ga gs by (rule newEvents_trans)
    moreover have "grows w ?ws"
      using ga gs by (rule grows_trans)
    ultimately show "?Q ?ws" by simp
  next
    fix x and w' :: world
    assume Q: "?Q w'"
    let ?w2 = "worldOf (reminderStep env days flg x w')"
    have g: "grows w' ?w2"
      using reminderStep_grows [of w' env days flg x] by simp
    from Q have gw: "grows w w'" by simp
    have "newEvents w ?w2 = newEvents w w' @ newEvents w' ?w2"
      using gw g by (rule newEvents_trans)
    moreover have "grows w ?w2"
      using gw g by (rule grows_trans)
    ultimately show "?Q ?w2"
      using Q by simp
  qed
  then show ?thesis
    using ok by (simp add: reminderCheckpoint_def)
qed

lemma checkpoints_flag:
  "(d, f) \<in> set checkpoints \<Longrightarrow> (d, f') \<in> set checkpoints \<Longrightarrow> f' = f"
  by (auto simp: checkpoints_def)

lemma reminderCheckpoint_keeps_flagged:
  assumes d: "distinct (map sid (subs w))"
    and r: "getSub w i = Some r" "reminderFlags r flg"
      "(expiryDate r - startOfToday now) div msPerDay = days"
    and cp: "(days, flg) \<in> set checkpoints" "(days', flg') \<in> set checkpoints"
  shows "\<exists>r'. getSub (worldOf (reminderCheckpoint env now (days', flg') w)) i = Some r'
      \<and> reminderFlags r' flg \<and> expiryDate r' = expiryDate r"
    and "i \<notin> set (visits (newEvents w (worldOf (reminderCheckpoint env now (days', flg') w))))"
proof -
  let ?xs = "filter (reminderDue now days' flg') (subs w)"
  let ?J = "\<lambda>w'. \<exists>r'. getSub w' i = Some r' \<and> reminderFlags r' flg \<and> expiryDate r' = expiryDate r"
  have "?J (worldOf (forEach (reminderStep env days' flg') ?xs w))"
  proof (rule forEach_invariant [where I = ?J])
    show "?J w" using r by simp
  next
    fix x and w' :: world
    assume "?J w'"
    then obtain r' where r': "getSub w' i = Some r'" "reminderFlags r' flg" "expiryDate r' = expiryDate r"
      by blast
    from reminderStep_getSub [of env days' flg' x w' i] r'
    show "?J (worldOf (reminderStep env days' flg' x w'))"
      by auto
  qed
  then show "\<exists>r'. getSub (worldOf (reminderCheckpoint env now (days', flg') w)) i = Some r'
      \<and> reminderFlags r' flg \<and> expiryDate r' = expiryDate r"
    using r by (auto simp: reminderCheckpoint_def)
  have "sid x \<noteq> i" if "x \<in> set ?xs" for x
  proof
    assume "sid x = i"
    moreover from that have x: "x \<in> set (subs w)" "reminderDue now days' flg' x" by auto
    ultimately have "x = r" using d r(1) by (intro getSub_unique)
    with x(2) have "(expiryDate r - startOfToday now) div msPerDay = days'" "\<not> reminderFlags r flg'"
      by (simp_all add: reminderDue_iff)
    with r(3) have "days' = days" by simp
    with cp have "flg' = flg" using checkpoints_flag by blast
    with \<open>\<not> reminderFlags r flg'\<close> r(2) show False by simp
  qed
  then show "i \<notin> set (visits (newEvents w (worldOf (reminderCheckpoint env now (days', flg') w))))"
    using reminderCheckpoint_grows [of w env now days' flg'] by auto
qed

subsection \<open>The whole reminder job\<close>

lemma reminderScheduler_skips_flagged:
  assumes d: "distinct (map sid (subs w))"
    and r: "getSub w i = Some r" "reminderFlags r flg"
      "(expiryDate r - startOfToday now) div msPerDay = days"
    and cp: "(days, flg) \<in> set checkpoints"
  shows "i \<notin> set (visits (newEvents w (worldOf (reminderScheduler env now w))))"
proof -
  let ?K = "\<lambda>w'. grows w w'
    \<and> (\<exists>r'. getSub w' i = Some r' \<and> reminderFlags r' flg \<and> expiryDate r' = expiryDate r)
    \<and> i \<notin> set (visits (newEvents w w'))"
  have "?K (worldOf (forEach (reminderCheckpoint env now) checkpoints w))"
  proof (rule forEach_invariant [where I = ?K])
    show "?K w" using r by simp
  next
    fix c and wa :: world
    assume c: "c \<in> set checkpoints" and K: "?K wa"
    obtain days' flg' where c': "c = (days', flg')" by (cases c)
    let ?wb = "worldOf (reminderCheckpoint env now (days', flg') wa)"
    from K obtain r' where ga: "grows w wa" and r': "getSub wa i = Some r'" "reminderFlags r' flg"
      "expiryDate r' = expiryDate r" and n: "i \<notin> set (visits (newEvents w wa))"
      by blast
    have da: "distinct (map sid (subs wa))"
      using ga d by (simp add: grows_def)
    have w3: "(expiryDate r' - startOfToday now) div msPerDay = days"
      using r' r(3) by simp
    have cin: "(days', flg') \<in> set checkpoints"
      using c c' by simp
    have k1: "\<exists>r''. getSub ?wb i = Some r'' \<and> reminderFlags r'' flg \<and> expiryDate r'' = expiryDate r'"
      and k2: "i \<notin> set (visits (newEvents wa ?wb))"
      using reminderCheckpoint_keeps_flagged [OF da r'(1,2) w3 cp cin, of env] by blast+
    have gb: "grows wa ?wb"
      using reminderCheckpoint_grows [of wa env now days' flg'] by simp
    have "newEvents w ?wb = newEvents w wa @ newEvents wa ?wb"
      using ga gb by (rule newEvents_trans)
    moreover have "grows w ?wb"
      using ga gb by (rule grows_trans)
    ultimately show "?K (worldOf (reminderCheckpoint env now c wa))"
      using k1 k2 n r'(3) c' by auto
  qed
  then show ?thesis
    by (simp add: reminderScheduler_def)
qed

lemma reminderScheduler_first_run:
  assumes ok: "storeOk env" and d: "distinct (map sid (subs w))"
    and s: "s \<in> set (subs w)" and cp: "(days, flg) \<in> set checkpoints"
    and due: "reminderDue now days flg s"
  shows "grows w (worldOf (reminderScheduler env now w))
    \<and> getSub (worldOf (reminderScheduler env now w)) (sid s) = Some (remindWrite env days flg s s)
    \<and> SendMessage (telegramId s) (ReminderMsg days (expiryDate s))
        \<in> set (newEvents w (worldOf (reminderScheduler env now w)))"
proof -
  let ?i = "sid s" and ?wr = "remindWrite env days flg s s"
  let ?m = "SendMessage (telegramId s) (ReminderMsg days (expiryDate s))"
  let ?B = "\<lambda>w'. grows w w' \<and> getSub w' ?i = Some s"
  let ?Q = "\<lambda>w'. grows w w' \<and> getSub w' ?i = Some ?wr \<and> ?m \<in> set (newEvents w w')"
  let ?f = "reminderCheckpoint env now"
  from due have win: "status s = Active" "(expiryDate s - startOfToday now) div msPerDay = days"
    "\<not> reminderFlags s flg"
    by (simp_all add: reminderDue_iff)
  have gs0: "getSub w ?i = Some s"
    unfolding getSub_def using d s by (rule find_distinct_mem)
  have dist: "distinct (map sid (subs w'))" if "grows w w'" for w'
    using that d by (simp add: grows_def)
  have wr_same: "(if reminderDue now days' flg' ?wr then remindWrite env days' flg' ?wr ?wr else ?wr) = ?wr"
    if "(days', flg') \<in> set checkpoints" for days' flg'
  proof (cases "reminderDue now days' flg' ?wr")
    case False
    then show ?thesis by simp
  next
    case True
    then have "(expiryDate s - startOfToday now) div msPerDay = days'"
      and nf: "\<not> reminderFlags ?wr flg'"
      by (simp_all add: reminderDue_iff remindWrite_def split: if_splits)
    with win(2) have "days' = days" by simp
    with that cp have f: "flg' = flg" using checkpoints_flag by blast
    with nf have "deliver env (telegramId s) (ReminderMsg days (expiryDate s)) \<noteq> Delivered"
      by (auto simp: remindWrite_def)
    then show ?thesis
      using \<open>days' = days\<close> f by (simp add: remindWrite_def)
  qed
  have T1: "?Q (worldOf (?f c wa))" if "c \<in> set checkpoints" and Q: "?Q wa" for c wa
  proof -
    obtain days' flg' where c': "c = (days', flg')" by (cases c)
    let ?wb = "worldOf (?f (days', flg') wa)"
    from Q have ga: "grows w wa" by simp
    have gb: "grows wa ?wb"
      using reminderCheckpoint_grows [of wa env now days' flg'] by simp
    have "getSub ?wb ?i = Some (if reminderDue now days' flg' ?wr then remindWrite env days' flg' ?wr ?wr else ?wr)"
      using ok dist [OF ga] Q by (intro reminderCheckpoint_getSub) auto
    then have "getSub ?wb ?i = Some ?wr"
      using wr_same that(1) c' by simp
    moreover have "newEvents w ?wb = newEvents w wa @ newEvents wa ?wb"
      using ga gb by (rule newEvents_trans)
    moreover have "grows w ?wb"
      using ga gb by (rule grows_trans)
    ultimately show ?thesis
      using Q c' by simp
  qed
  have T2: "?B (worldOf (?f c wa))" if "c \<in> set checkpoints" "c \<noteq> (days, flg)" and B: "?B wa" for c wa
  proof -
    obtain days' flg' where c': "c = (days', flg')" by (cases c)
    let ?wb = "worldOf (?f (days', flg') wa)"
    from B have ga: "grows w wa" by simp
    have gb: "grows wa ?wb"
      using reminderCheckpoint_grows [of wa env now days' flg'] by simp
    have "days' \<noteq> days"
      using that(1,2) cp c' checkpoints_flag by blast
    then have nd: "\<not> reminderDue now days' flg' s"
      using win(2) by (simp add: reminderDue_iff)
    have "getSub ?wb ?i = Some (if reminderDue now days' flg' s then remindWrite env days' flg' s s else s)"
      using ok dist [OF ga] B by (intro reminderCheckpoint_getSub) auto
    with nd have "getSub ?wb ?i = Some s" by simp
    moreover have "grows w ?wb"
      using ga gb by (rule grows_trans)
    ultimately show ?thesis
      using c' by simp
  qed
  have T3: "?Q (worldOf (?f (days, flg) wa))" if B: "?B wa" for wa
  proof -
    let ?wb = "worldOf (?f (days, flg) wa)"
    from B have ga: "grows w wa" and gsa: "getSub wa ?i = Some s" by simp_all
    have gb: "grows wa ?wb"
      using reminderCheckpoint_grows [of wa env now days flg] by simp
    have sa: "s \<in> set (subs wa)"
      using gsa getSub_mem by blast
    have "getSub ?wb ?i = Some (if reminderDue now days flg s then remindWrite env days flg s s else s)"
      using ok dist [OF ga] gsa by (rule reminderCheckpoint_getSub)
    with due have "getSub ?wb ?i = Some ?wr" by simp
    moreover have "?m \<in> set (newEvents wa ?wb)"
      using ok sa due by (rule reminderCheckpoint_sends)
    moreover have "newEvents w ?wb = newEvents w wa @ newEvents wa ?wb"
      using ga gb by (rule newEvents_trans)
    moreover have "grows w ?wb"
      using ga gb by (rule grows_trans)
    ultimately show ?thesis by simp
  qed
  have "?Q (worldOf (forEach ?f checkpoints w))"
  proof (rule forEach_establish [where I = "\<lambda>w'. ?B w' \<or> ?Q w'" and ?x0.0 = "(days, flg)"])
    show "(days, flg) \<in> set checkpoints" by (rule cp)
    show "?B w \<or> ?Q w" using gs0 by simp
  next
    fix c and wa :: world
    assume "c \<in> set checkpoints"
    show "resolved (?f c wa)"
      using ok by (rule reminderCheckpoint_resolved)
  next
    fix c and wa :: world
    assume c: "c \<in> set checkpoints" and I: "?B wa \<or> ?Q wa"
    show "?B (worldOf (?f c wa)) \<or> ?Q (worldOf (?f c wa))"
    proof (cases "?Q wa")
      case True
      then show ?thesis using T1 [OF c] by blast
    next
      case False
      with I have B: "?B wa" by blast
      show ?thesis
      proof (cases "c = (days, flg)")
        case True
        with T3 [OF B] show ?thesis by simp
      next
        case False
        with T2 [OF c _ B] show ?thesis by blast
      qed
    qed
  next
    fix wa :: world
    assume I: "?B wa \<or> ?Q wa"
    show "?Q (worldOf (?f (days, flg) wa))"
    proof (cases "?Q wa")
      case True
      then show ?thesis using T1 [OF cp] by blast
    next
      case False
      with I have "?B wa" by blast
      then show ?thesis by (rule T3)
    qed
  next
    fix c and wa :: world
    assume "c \<in> set checkpoints" and "?Q wa"
    then show "?Q (worldOf (?f c wa))" by (rule T1)
  qed
  then show ?thesis
    using ok by (simp add: reminderScheduler_def)
qed

lemma reminderScheduler_resolved: "storeOk env \<Longrightarrow> resolved (reminderScheduler env now w)"
  by (simp add: reminderScheduler_def forEach_resolved reminderCheckpoint_resolved)

text \<open>
  C3. A reminder flag is set exactly when the reminder was delivered. For a subscription that
  is due at a checkpoint (active, the checkpoint's number of whole days between today's
  midnight and the expiry date, flag not yet set), in a run in which no database operation
  fails: the job resolves, it sends the reminder of that checkpoint to the subscriber, and
  afterwards the checkpoint's flag of the stored document is set if and only if the send was
  delivered. After a delivered reminder, a later run on the same day, in any environment, does
  not select the subscription again.
\<close>

theorem reminder_flag_set_iff_delivered:
  assumes ok: "storeOk env" and d: "distinct (map sid (subs w))"
    and s: "s \<in> set (subs w)" and cp: "(days, flg) \<in> set checkpoints"
    and due: "reminderDue now days flg s"
  shows "\<exists>w' s'. reminderScheduler env now w = Ret () w'
    \<and> trace w' = trace w @ newEvents w w'
    \<and> SendMessage (telegramId s) (ReminderMsg days (expiryDate s)) \<in> set (newEvents w w')
    \<and> getSub w' (sid s) = Some s'
    \<and> (reminderFlags s' flg \<longleftrightarrow> deliver env (telegramId s) (ReminderMsg days (expiryDate s)) = Delivered)
    \<and> (deliver env (telegramId s) (ReminderMsg days (expiryDate s)) = Delivered \<longrightarrow>
         (\<forall>env2 now2. startOfToday now2 = startOfToday now \<longrightarrow>
            sid s \<notin> set (visits (newEvents w' (worldOf (reminderScheduler env2 now2 w'))))))"
proof -
  let ?w' = "worldOf (reminderScheduler env now w)"
  let ?s' = "remindWrite env days flg s s"
  let ?ok = "deliver env (telegramId s) (ReminderMsg days (expiryDate s)) = Delivered"
  have run: "reminderScheduler env now w = Ret () ?w'"
    using ok by (intro resolved_Ret reminderScheduler_resolved)
  have first: "grows w ?w'" "getSub ?w' (sid s) = Some ?s'"
    "SendMessage (telegramId s) (ReminderMsg days (expiryDate s)) \<in> set (newEvents w ?w')"
    using reminderScheduler_first_run [OF ok d s cp due] by simp_all
  from due have win: "(expiryDate s - startOfToday now) div msPerDay = days" "\<not> reminderFlags s flg"
    by (simp_all add: reminderDue_iff)
  have fl: "reminderFlags ?s' flg \<longleftrightarrow> ?ok"
    using win(2) by (simp add: remindWrite_def)
  have d': "distinct (map sid (subs ?w'))"
    using first(1) d by (simp add: grows_def)
  have again: "sid s \<notin> set (visits (newEvents ?w' (worldOf (reminderScheduler env2 now2 ?w'))))"
    if "?ok" and "startOfToday now2 = startOfToday now" for env2 now2
  proof (rule reminderScheduler_skips_flagged [OF d' first(2) _ _ cp])
    show "reminderFlags ?s' flg" using that(1) fl by simp
    show "(expiryDate ?s' - startOfToday now2) div msPerDay = days"
      using win(1) that(2) by (simp add: remindWrite_def)
  qed
  have "trace ?w' = trace w @ newEvents w ?w'"
    using first(1) by (simp add: grows_iff)
  with run first fl again show ?thesis
    by (intro exI [of _ ?w'] exI [of _ ?s']) simp
qed

theorem reminder_flag_set_iff_delivered_witness:
  "storeOk env0 \<and> distinct (map sid (subs wAlice))
   \<and> mkSub 1 100 (day 30) Active \<in> set (subs wAlice)
   \<and> (7, Day7) \<in> set checkpoints
   \<and> reminderDue (nineAM 23) 7 Day7 (mkSub 1 100 (day 30) Active)
   \<and> (\<exists>w' s'. reminderScheduler env0 (nineAM 23) wAlice = Ret () w'
        \<and> SendMessage 100 (ReminderMsg 7 (day 30)) \<in> set (newEvents wAlice w')
        \<and> getSub w' 1 = Some s' \<and> reminderFlags s' Day7
        \<and> 1 \<notin> set (visits (newEvents w' (worldOf (reminderScheduler env0 (nineAM 23 + 5) w')))))"
proof -
  let ?s = "mkSub 1 100 (day 30) Active"
  have h1: "storeOk env0"
    by (simp add: storeOk_def env0_def)
  have h2: "distinct (map sid (subs wAlice))"
    by (simp add: wAlice_def)
  have h3: "?s \<in> set (subs wAlice)"
    by (simp add: wAlice_def)
  have h4: "(7, Day7) \<in> set checkpoints"
    by (simp add: checkpoints_def)
  have h5: "reminderDue (nineAM 23) 7 Day7 ?s"
    by (simp add: reminderDue_iff date_defs)
  have dl: "deliver env0 100 (ReminderMsg 7 (day 30)) = Delivered"
    by (simp add: env0_def)
  have same: "startOfToday (nineAM 23 + 5) = startOfToday (nineAM 23)"
    by (simp add: date_defs)
  from reminder_flag_set_iff_delivered [OF h1 h2 h3 h4 h5] dl same
  obtain w' s' where "reminderScheduler env0 (nineAM 23) wAlice = Ret () w'"
    and "SendMessage 100 (ReminderMsg 7 (day 30)) \<in> set (newEvents wAlice w')"
    and "getSub w' 1 = Some s'" and "reminderFlags s' Day7"
    and "1 \<notin> set (visits (newEvents w' (worldOf (reminderScheduler env0 (nineAM 23 + 5) w'))))"
    by (auto simp del: One_nat_def)
  with h1 h2 h3 h4 h5 show ?thesis
    by blast
qed

section \<open>Database errors in the grace job\<close>

lemma graceStep_resolved_iff:
  "resolved (graceStep env today x w) \<longleftrightarrow> \<not> ownStoreError env today x"
  by (auto simp add: graceStep_def ownStoreError_def Let_def)

lemma forEach_stops:
  assumes "\<And>w'. \<not> resolved (f s w')"
  shows "\<not> resolved (forEach f (pre @ s # post) w)
    \<and> worldOf (forEach f (pre @ s # post) w) = worldOf (forEach f (pre @ [s]) w)"
proof (induction pre arbitrary: w)
  case Nil
  from assms [of w] show ?case
    by (cases "f s w") auto
next
  case (Cons a pre)
  show ?case
  proof (cases "f a w")
    case (Ret u w1)
    with Cons [of w1] show ?thesis by simp
  next
    case (Rej e w1)
    then show ?thesis by simp
  qed
qed

lemma inGracePass_stops:
  assumes d: "distinct (map sid (subs w))"
    and f: "\<not> fails env SubscriptionFind"
    and c: "inGrace w = pre @ s # post"
    and e: "ownStoreError env today s"
  shows "\<not> resolved (inGracePass env today w)"
    and "\<forall>x\<in>set post. sid x \<notin> set (visits (newEvents w (worldOf (inGracePass env today w))))
            \<and> getSub (worldOf (inGracePass env today w)) (sid x) = Some x"
proof -
  let ?f = "graceStep env today"
  have stop: "\<not> resolved (forEach ?f (pre @ s # post) w)"
    "worldOf (forEach ?f (pre @ s # post) w) = worldOf (forEach ?f (pre @ [s]) w)"
    using forEach_stops [of ?f s pre post w] e by (simp_all add: graceStep_resolved_iff)
  have run: "inGracePass env today w = forEach ?f (pre @ s # post) w"
    using f c by (simp add: inGracePass_def)
  show "\<not> resolved (inGracePass env today w)"
    using stop(1) run by simp
  have v: "set (visits (newEvents w (worldOf (forEach ?f (pre @ [s]) w)))) \<subseteq> sid ` set (pre @ [s])"
    using forEach_grows [of "pre @ [s]" ?f sid w] by (simp add: graceStep_grows)
  have dc: "distinct (map sid (pre @ s # post))"
    using d c [symmetric] by (simp add: inGrace_def distinct_map_filter)
  show "\<forall>x\<in>set post. sid x \<notin> set (visits (newEvents w (worldOf (inGracePass env today w))))
            \<and> getSub (worldOf (inGracePass env today w)) (sid x) = Some x"
  proof
    fix x
    assume x: "x \<in> set post"
    from dc x have out: "sid x \<notin> sid ` set (pre @ [s])"
      by (auto simp: image_iff)
    have "x \<in> set (inGrace w)"
      using x c by simp
    then have "x \<in> set (subs w)"
      by (simp add: inGrace_def)
    with d have g0: "getSub w (sid x) = Some x"
      unfolding getSub_def by (rule find_distinct_mem)
    have "getSub (worldOf (forEach ?f (pre @ [s]) w)) (sid x) = Some x"
    proof (rule forEach_invariant [where I = "\<lambda>w'. getSub w' (sid x) = Some x"])
      show "getSub w (sid x) = Some x" by (rule g0)
    next
      fix y and w' :: world
      assume y: "y \<in> set (pre @ [s])" and g: "getSub w' (sid x) = Some x"
      from y out have "sid y \<noteq> sid x"
        by (auto simp: image_iff)
      then have "getSub (worldOf (?f y w')) (sid x) = getSub w' (sid x)"
        by (rule graceStep_getSub_other)
      with g show "getSub (worldOf (?f y w')) (sid x) = Some x"
        by simp
    qed
    with v out show "sid x \<notin> set (visits (newEvents w (worldOf (inGracePass env today w))))
            \<and> getSub (worldOf (inGracePass env today w)) (sid x) = Some x"
      unfolding run stop(2) by auto
  qed
qed

text \<open>
  A database error inside the blocked-user procedure does not count: it is caught there.
  Both candidates below get the first-day reminder, both have blocked the bot, and
  updating the document of user 100 throws inside \<open>handleBlockedUser\<close>; the run resolves
  and visits both.
\<close>

lemma blocked_procedure_error_is_caught:
  "map sid (inGrace wTwoFirstDay) = [1, 2]
   \<and> fails envBlockedUpdateFails (UserUpdate 100)
   \<and> \<not> ownStoreError envBlockedUpdateFails (startOfToday (nineAM 20)) (mkSub 1 100 (day 19) Grace)
   \<and> resolved (gracePeriodHandler envBlockedUpdateFails (nineAM 20) wTwoFirstDay)
   \<and> visits (trace (worldOf (gracePeriodHandler envBlockedUpdateFails (nineAM 20) wTwoFirstDay))) = [1, 2]"
  by (simp add: wTwoFirstDay_def envBlockedUpdateFails_def ownStoreError_def mkSub_def alice_def bob_def
      grace_defs prim_defs date_defs cfg_defs)

text \<open>
  C7 as the code has it. The Telegram calls of the grace job (\<open>safeSend\<close>, \<open>banFromGroup\<close>,
  \<open>logToChannel\<close>) catch their own errors, and nothing else in the loops is caught. So
  when no database operation throws, whatever Telegram answers for any candidate, the run
  resolves, the second loop visits every subscription that was in grace or entered grace
  in the first loop, in order, and every overdue one among them ends expired. And when one
  of the database statements that the second loop itself runs for a candidate throws, in
  any environment, the run rejects, and no candidate that comes after it in the batch (the
  subscriptions in grace in the state that the first loop leaves) is visited by the second
  loop: its document is as the first loop left it.
\<close>

theorem grace_run_failure_isolation:
  assumes d: "distinct (map sid (subs w))"
  shows "(storeOk env \<longrightarrow>
      (\<exists>w'. gracePeriodHandler env now w = Ret () w'
        \<and> visits (newEvents w w') = map sid (justExpired (startOfToday now) w)
            @ map sid (filter (\<lambda>s. status s = Grace \<or> status s = Active \<and> expiryDate s < startOfToday now)
                 (subs w))
        \<and> (\<forall>s\<in>set (subs w).
              (status s = Grace \<or> status s = Active \<and> expiryDate s < startOfToday now)
              \<and> GRACE_DAYS env \<le> daysSinceExpiry (startOfToday now) s
              \<longrightarrow> getSub w' (sid s) = Some (s\<lparr>status := Expired, graceDaysUsed := GRACE_DAYS env\<rparr>))))
    \<and> (\<forall>pre s post.
          inGrace (worldOf (graceEntryPass env (startOfToday now) w)) = pre @ s # post
          \<and> ownStoreError env (startOfToday now) s
          \<longrightarrow> \<not> resolved (gracePeriodHandler env now w)
            \<and> (\<forall>x\<in>set post.
                  sid x \<notin> set (visits (newEvents (worldOf (graceEntryPass env (startOfToday now) w))
                                       (worldOf (gracePeriodHandler env now w))))
                  \<and> getSub (worldOf (gracePeriodHandler env now w)) (sid x) = Some x))"
proof (rule conjI)
  show "storeOk env \<longrightarrow>
      (\<exists>w'. gracePeriodHandler env now w = Ret () w'
        \<and> visits (newEvents w w') = map sid (justExpired (startOfToday now) w)
            @ map sid (filter (\<lambda>s. status s = Grace \<or> status s = Active \<and> expiryDate s < startOfToday now)
                 (subs w))
        \<and> (\<forall>s\<in>set (subs w).
              (status s = Grace \<or> status s = Active \<and> expiryDate s < startOfToday now)
              \<and> GRACE_DAYS env \<le> daysSinceExpiry (startOfToday now) s
              \<longrightarrow> getSub w' (sid s) = Some (s\<lparr>status := Expired, graceDaysUsed := GRACE_DAYS env\<rparr>)))"
    using d by (intro impI gracePeriodHandler_isolates_telegram)
next
  let ?today = "startOfToday now"
  let ?w1 = "worldOf (graceEntryPass env ?today w)"
  let ?w' = "worldOf (gracePeriodHandler env now w)"
  have "grows w ?w1"
    using graceEntryPass_grows [of w env ?today] by simp
  with d have d1: "distinct (map sid (subs ?w1))"
    by (simp add: grows_def)
  show "\<forall>pre s post.
          inGrace ?w1 = pre @ s # post \<and> ownStoreError env ?today s
          \<longrightarrow> \<not> resolved (gracePeriodHandler env now w)
            \<and> (\<forall>x\<in>set post. sid x \<notin> set (visits (newEvents ?w1 ?w'))
                  \<and> getSub ?w' (sid x) = Some x)"
  proof (intro allI impI)
    fix pre s post
    assume a: "inGrace ?w1 = pre @ s # post \<and> ownStoreError env ?today s"
    then have c: "inGrace ?w1 = pre @ s # post" and e: "ownStoreError env ?today s"
      by simp_all
    show "\<not> resolved (gracePeriodHandler env now w)
       \<and> (\<forall>x\<in>set post. sid x \<notin> set (visits (newEvents ?w1 ?w'))
            \<and> getSub ?w' (sid x) = Some x)"
    proof (cases "graceEntryPass env ?today w")
      case (Ret u w1)
      then have nf: "\<not> fails env SubscriptionFind"
        by (auto simp: graceEntryPass_def split: if_splits)
      have run: "gracePeriodHandler env now w = inGracePass env ?today ?w1"
        using Ret by (simp add: gracePeriodHandler_def)
      show ?thesis
        unfolding run using inGracePass_stops [OF d1 nf c e] by simp
    next
      case (Rej er w1)
      then have run: "gracePeriodHandler env now w = Rej er w1" and w1: "?w1 = w1"
        by (simp_all add: gracePeriodHandler_def)
      have "getSub w1 (sid x) = Some x" if "x \<in> set post" for x
      proof -
        from that c have "x \<in> set (inGrace ?w1)"
          by simp
        then have "x \<in> set (subs w1)"
          unfolding w1 by (simp add: inGrace_def)
        with d1 show ?thesis
          unfolding w1 getSub_def by (rule find_distinct_mem)
      qed
      then show ?thesis
        by (simp add: run w1)
    qed
  qed
qed

theorem grace_run_failure_isolation_witness:
  "distinct (map sid (subs wTwoGrace))
   \<and> storeOk envTelegramDown
   \<and> (\<exists>w'. gracePeriodHandler envTelegramDown (nineAM 20) wTwoGrace = Ret () w'
        \<and> visits (newEvents wTwoGrace w') = [1, 2]
        \<and> getSub w' 1 = Some (mkSub 1 100 (day 10) Expired\<lparr>graceDaysUsed := 3\<rparr>)
        \<and> getSub w' 2 = Some (mkSub 2 200 (day 10) Expired\<lparr>graceDaysUsed := 3\<rparr>))
   \<and> worldOf (graceEntryPass envSaveFails (startOfToday (nineAM 20)) wTwoGrace) = wTwoGrace
   \<and> inGrace wTwoGrace = [] @ mkSub 1 100 (day 10) Grace # [mkSub 2 200 (day 10) Grace]
   \<and> ownStoreError envSaveFails (startOfToday (nineAM 20)) (mkSub 1 100 (day 10) Grace)
   \<and> \<not> resolved (gracePeriodHandler envSaveFails (nineAM 20) wTwoGrace)
   \<and> 2 \<notin> set (visits (newEvents wTwoGrace (worldOf (gracePeriodHandler envSaveFails (nineAM 20) wTwoGrace))))
   \<and> getSub (worldOf (gracePeriodHandler envSaveFails (nineAM 20) wTwoGrace)) 2
       = Some (mkSub 2 200 (day 10) Grace)"
proof -
  let ?s1 = "mkSub 1 100 (day 10) Grace" and ?s2 = "mkSub 2 200 (day 10) Grace"
  let ?today = "startOfToday (nineAM 20)"
  have h: "distinct (map sid (subs wTwoGrace))"
    by (simp add: wTwoGrace_def)
  have h1: "storeOk envTelegramDown"
    by (simp add: storeOk_def envTelegramDown_def env0_def)
  have gd: "GRACE_DAYS envTelegramDown = 3" "GRACE_DAYS envSaveFails = 3"
    by (simp_all add: envTelegramDown_def envSaveFails_def cfg_defs)
  have dd: "(?today - day 10) div msPerDay = 10"
    by (simp add: date_defs)
  from grace_run_failure_isolation [OF h, of envTelegramDown "nineAM 20"] h1
  obtain w' where r: "gracePeriodHandler envTelegramDown (nineAM 20) wTwoGrace = Ret () w'"
    and v: "visits (newEvents wTwoGrace w') = map sid (justExpired ?today wTwoGrace)
        @ map sid (filter (\<lambda>s. status s = Grace \<or> status s = Active \<and> expiryDate s < ?today)
             (subs wTwoGrace))"
    and b: "\<forall>s\<in>set (subs wTwoGrace).
          (status s = Grace \<or> status s = Active \<and> expiryDate s < ?today)
          \<and> GRACE_DAYS envTelegramDown \<le> daysSinceExpiry ?today s
          \<longrightarrow> getSub w' (sid s) = Some (s\<lparr>status := Expired, graceDaysUsed := GRACE_DAYS envTelegramDown\<rparr>)"
    by blast
  have v': "visits (newEvents wTwoGrace w') = [1, 2]"
    unfolding v by (simp add: justExpired_def wTwoGrace_def)
  have g: "getSub w' 1 = Some (mkSub 1 100 (day 10) Expired\<lparr>graceDaysUsed := 3\<rparr>)"
    "getSub w' 2 = Some (mkSub 2 200 (day 10) Expired\<lparr>graceDaysUsed := 3\<rparr>)"
    using b by (simp_all add: wTwoGrace_def gd dd)
  have p1: "worldOf (graceEntryPass envSaveFails ?today wTwoGrace) = wTwoGrace"
    by (simp add: graceEntryPass_def justExpired_def wTwoGrace_def envSaveFails_def env0_def)
  have p2: "inGrace wTwoGrace = [] @ ?s1 # [?s2]"
    by (simp add: inGrace_def wTwoGrace_def)
  have p3: "ownStoreError envSaveFails ?today ?s1"
    by (simp add: ownStoreError_def gd dd) (simp add: envSaveFails_def)
  from grace_run_failure_isolation [OF h, of envSaveFails "nineAM 20"] p2 p3
  have q: "\<not> resolved (gracePeriodHandler envSaveFails (nineAM 20) wTwoGrace)
     \<and> (\<forall>x\<in>set [?s2].
          sid x \<notin> set (visits (newEvents wTwoGrace (worldOf (gracePeriodHandler envSaveFails (nineAM 20) wTwoGrace))))
          \<and> getSub (worldOf (gracePeriodHandler envSaveFails (nineAM 20) wTwoGrace)) (sid x) = Some x)"
    unfolding p1 by blast
  then have q': "\<not> resolved (gracePeriodHandler envSaveFails (nineAM 20) wTwoGrace)"
    "2 \<notin> set (visits (newEvents wTwoGrace (worldOf (gracePeriodHandler envSaveFails (nineAM 20) wTwoGrace))))"
    "getSub (worldOf (gracePeriodHandler envSaveFails (nineAM 20) wTwoGrace)) 2 = Some ?s2"
    by simp_all
  from h h1 r v' g p1 p2 p3 q' show ?thesis
    by blast
qed

section \<open>A referral notice to a user who has blocked the bot\<close>

text \<open>
  C8. Not every delivery attempt runs the blocked-recipient procedure. User 200, referred
  by user 100, is approved on day 10 while user 100 has blocked the bot. The approval
  message to user 200 goes through \<open>safeSend\<close>; the referral notice to user 100 is sent by
  \<open>awardReferralBonus\<close> with a plain \<^verbatim>\<open>sendMessage\<close> inside \<^verbatim>\<open>try { } catch (_) {}\<close>. Telegram
  answers 403 to it and nothing follows: user 100 is not marked blocked, no audit entry
  for a blocked recipient is written and no alert is posted to the log channel. The same
  message sent through \<open>safeSend\<close> in the same world does all three.
\<close>

theorem referral_notice_403_not_handled:
  "deliver envReferrerBlocked 100 (ReferralBonusMsg ''Bob'' 3) = Blocked403
   \<and> trace wReferrerActive = []
   \<and> trace (approveAction envReferrerBlocked (day 10) 200 monthly 9 wReferrerActive)
       = [CreateInviteLink 200,
          SendMessage 200 (ApprovedMsg ''Monthly'' 30 (day 40) (Some ''https://t.me/+invite'')),
          SendMessage 100 (ReferralBonusMsg ''Bob'' 3),
          ChannelPost (ApprovalAlert 200 ''Monthly'' 30 (day 40) False)]
   \<and> map (\<lambda>u. (u_telegramId u, isBlocked u, u_status u))
        (users (approveAction envReferrerBlocked (day 10) 200 monthly 9 wReferrerActive))
       = [(100, False, UActive), (200, False, UActive)]
   \<and> map (\<lambda>l. (actionType l, targetUserId l))
        (adminLogs (approveAction envReferrerBlocked (day 10) 200 monthly 9 wReferrerActive))
       = [(''referral_bonus'', Some 100), (''approve_request'', Some 200)]
   \<and> fst (safeSend envReferrerBlocked 100 (ReferralBonusMsg ''Bob'' 3) wReferrerActive) = False
   \<and> trace (snd (safeSend envReferrerBlocked 100 (ReferralBonusMsg ''Bob'' 3) wReferrerActive))
       = [SendMessage 100 (ReferralBonusMsg ''Bob'' 3), ChannelPost (BotBlockedAlert 100)]
   \<and> map (\<lambda>u. (u_telegramId u, isBlocked u, u_status u))
        (users (snd (safeSend envReferrerBlocked 100 (ReferralBonusMsg ''Bob'' 3) wReferrerActive)))
       = [(100, True, UBlocked), (200, False, UInactive)]
   \<and> map (\<lambda>l. (actionType l, targetUserId l, logDetails l))
        (adminLogs (snd (safeSend envReferrerBlocked 100 (ReferralBonusMsg ''Bob'' 3) wReferrerActive)))
       = [(''ban_user'', Some 100, Reason ''Bot blocked by user (403)'')]"
  by (simp add: wReferrerActive_def wTwoUsers_def envReferrerBlocked_def joinGroup_def
      alice_def bob_def monthly_def approveAction_def create_defs referral_defs prim_defs
      date_defs cfg_defs)


section \<open>Renewal with an edited plan\<close>

text \<open>
  C2. A renewal can shorten the remaining validity. \<^verbatim>\<open>/createplan\<close> refuses a plan of -5
  days, because \<^verbatim>\<open>Plan.create\<close> runs the validator \<^verbatim>\<open>min: 1\<close>; \<^verbatim>\<open>/editplan\<close> stores the same
  value, because \<open>updatePlan\<close> updates without validators. User 100 has an active
  subscription until day 30. Approving the edited plan on day 20 renews it in place, and
  the new expiry is day 25, five days before the old one.
\<close>

theorem renewal_shortens_after_editplan:
  "createPlan [] ''Monthly'' 30 = Inr (monthly, [monthly])
   \<and> createPlan [] ''Monthly'' (- 5) = Inl PlanValidationError
   \<and> updatePlan [monthly] 1 (SetDurationDays (- 5))
       = Inr (monthly\<lparr>p_durationDays := - 5\<rparr>, [monthly\<lparr>p_durationDays := - 5\<rparr>])
   \<and> map (\<lambda>s. (sid s, telegramId s, status s, expiryDate s, isRenewal s)) (subs wAlice)
       = [(1, 100, Active, day 30, False)]
   \<and> resolved (createSubscription env0 (day 20) 100 (monthly\<lparr>p_durationDays := - 5\<rparr>) 9 wAlice)
   \<and> map (\<lambda>s. (sid s, telegramId s, status s, expiryDate s, isRenewal s))
        (subs (worldOf (createSubscription env0 (day 20) 100 (monthly\<lparr>p_durationDays := - 5\<rparr>) 9 wAlice)))
       = [(1, 100, Active, day 25, True)]
   \<and> day 25 < max (day 30) (day 20)"
  by (simp add: createPlan_def updatePlan_def planValid_def wAlice_def mkSub_def alice_def
      monthly_def create_defs prim_defs date_defs cfg_defs)


section \<open>Referral bonus: the first subscription\<close>

subsection \<open>Steps that have nothing to do with a referral bonus\<close>

lemma quiet_refl [simp]: "quiet tid w w"
  by (simp add: quiet_def)

lemma quiet_trans: "quiet tid a b \<Longrightarrow> quiet tid b c \<Longrightarrow> quiet tid a c"
  by (auto simp: quiet_def)

lemma isReferralNotice_SendMessage:
  "isReferralNotice (SendMessage t m) \<longleftrightarrow> (\<exists>n d. m = ReferralBonusMsg n d)"
  by (cases m) auto

lemma quiet_emit: "quiet tid a w \<Longrightarrow> \<not> isReferralNotice e \<Longrightarrow> quiet tid a (emit e w)"
  by (auto simp: quiet_def)

lemma quiet_logToChannel: "quiet tid a w \<Longrightarrow> quiet tid a (logToChannel m w)"
  by (auto simp: quiet_def)

lemma quiet_createLog:
  "quiet tid a w \<Longrightarrow> actionType l \<noteq> ''referral_bonus'' \<Longrightarrow> quiet tid a (createLog l w)"
  by (auto simp: quiet_def)

lemma quiet_updateUser:
  assumes "quiet tid a w" and "\<And>u. referralView (f u) = referralView u"
  shows "quiet tid a (updateUser t f w)"
  using assms by (auto simp: quiet_def map_updateFirst)

lemma quiet_safeSend:
  assumes "quiet tid a w" and "\<And>n d. m \<noteq> ReferralBonusMsg n d"
  shows "quiet tid a (snd (safeSend env t m w))"
  using assms
  by (auto simp: quiet_def world_simps isReferralNotice_SendMessage blockedLog_def referralView_def)

lemma filter_updateFirst_own:
  assumes "\<forall>x\<in>set xs. P x \<longrightarrow> \<not> Q x" and "\<And>x. Q (f x) = Q x"
  shows "filter Q (updateFirst P f xs) = filter Q xs"
  using assms by (induction xs) auto

lemma quiet_updateSub_own:
  assumes "quiet tid a w" and "\<forall>s\<in>set (subs w). sid s = i \<longrightarrow> telegramId s = tid"
    and "\<And>s. telegramId (f s) = telegramId s"
  shows "quiet tid a (updateSub i f w)"
proof -
  have "filter (\<lambda>s. telegramId s \<noteq> tid) (updateFirst (\<lambda>s. sid s = i) f (subs w))
      = filter (\<lambda>s. telegramId s \<noteq> tid) (subs w)"
    by (rule filter_updateFirst_own) (use assms(2,3) in auto)
  with assms(1) show ?thesis
    by (auto simp: quiet_def)
qed

lemma history_frame [simp]:
  "history (emit e w) = history w" "history (createLog l w) = history w"
  "history (logToChannel m w) = history w" "history (updateUser t f w) = history w"
  "history (snd (safeSend env t m w)) = history w"
  by (simp_all add: history_def)

lemma history_updateSub:
  assumes "\<And>s. telegramId (f s) = telegramId s" and "\<And>s. status (f s) = status s"
  shows "history (updateSub i f w) = history w"
  by (simp add: history_def map_updateFirst assms)

lemma find_view:
  assumes "map g xs = map g ys" and "\<And>x. P x = Q (g x)"
  shows "map_option g (find P xs) = map_option g (find P ys)"
  using assms(1)
proof (induction xs arbitrary: ys)
  case Nil
  then show ?case by simp
next
  case (Cons x xs)
  then obtain y ys' where ys: "ys = y # ys'" "g x = g y" "map g xs = map g ys'"
    by (cases ys) auto
  with Cons.IH [of ys'] show ?case
    by (simp add: assms(2))
qed

lemma getUser_view:
  assumes "map referralView (users w') = map referralView (users w)"
  shows "map_option referralView (getUser w' t) = map_option referralView (getUser w t)"
  unfolding getUser_def using assms
  by (rule find_view [where Q = "\<lambda>v. fst v = t"]) (simp add: referralView_def)

lemma quiet_getUser:
  assumes "quiet tid w w'" and "getUser w' t = Some u'"
  shows "\<exists>u. getUser w t = Some u \<and> referredBy u = referredBy u'
    \<and> referralBonusApplied u = referralBonusApplied u'"
proof -
  from assms(1) have "map_option referralView (getUser w' t) = map_option referralView (getUser w t)"
    by (intro getUser_view) (simp add: quiet_def)
  with assms(2) show ?thesis
    by (cases "getUser w t") (auto simp: referralView_def)
qed

lemma quiet_getUser_None:
  assumes "quiet tid w w'"
  shows "getUser w' t = None \<longleftrightarrow> getUser w t = None"
proof -
  from assms have "map_option referralView (getUser w' t) = map_option referralView (getUser w t)"
    by (intro getUser_view) (simp add: quiet_def)
  then show ?thesis
    by (cases "getUser w t"; cases "getUser w' t") auto
qed

lemma quiet_bonusApplied:
  assumes "quiet tid w w'"
  shows "bonusApplied w' t = bonusApplied w t"
proof -
  from assms have "map_option referralView (getUser w' t) = map_option referralView (getUser w t)"
    by (intro getUser_view) (simp add: quiet_def)
  then show ?thesis
    by (cases "getUser w t"; cases "getUser w' t") (auto simp: bonusApplied_def referralView_def)
qed

lemma quiet_not_awarded:
  assumes "quiet tid w w'"
  shows "\<not> bonusAwarded w w' tid"
proof -
  from assms obtain es ls where "trace w' = trace w @ es" "\<not> list_ex isReferralNotice es"
    "adminLogs w' = adminLogs w @ ls" "\<not> list_ex (\<lambda>l. actionType l = ''referral_bonus'') ls"
    "filter (\<lambda>s. telegramId s \<noteq> tid) (subs w') = filter (\<lambda>s. telegramId s \<noteq> tid) (subs w)"
    by (auto simp: quiet_def)
  then show ?thesis
    using quiet_bonusApplied [OF assms, of tid]
    by (simp add: bonusAwarded_def newEvents_def newLogs_def)
qed

subsection \<open>What createSubscription leaves\<close>

lemma createSubscription_frame:
  "trace (worldOf (createSubscription env now tid pl admin w)) = trace w"
  "adminLogs (worldOf (createSubscription env now tid pl admin w)) = adminLogs w"
  "map referralView (users (worldOf (createSubscription env now tid pl admin w)))
     = map referralView (users w)"
  by (simp_all add: createSubscription_def Let_def referralView_def map_updateFirst
      split: option.splits)

lemma createSubscription_subs_cases:
  "subs (worldOf (createSubscription env now tid pl admin w)) = subs w
   \<or> (\<exists>ex. find (\<lambda>s. telegramId s = tid \<and> (status s = Active \<or> status s = Grace)) (subs w) = Some ex
         \<and> subs (worldOf (createSubscription env now tid pl admin w))
             = updateFirst (\<lambda>s. sid s = sid ex) (renew now pl admin ex) (subs w))
   \<or> (\<exists>new. telegramId new = tid
         \<and> subs (worldOf (createSubscription env now tid pl admin w)) = subs w @ [new])"
  by (simp add: createSubscription_def Let_def split: option.splits)

lemma renew_fields [simp]:
  "sid (renew now pl admin ex s) = sid s" "telegramId (renew now pl admin ex s) = telegramId s"
  "status (renew now pl admin ex s) = Active"
  by (simp_all add: renew_def Let_def)

lemma find_live:
  assumes "find (\<lambda>s. telegramId s = tid \<and> (status s = Active \<or> status s = Grace)) ss = Some ex"
  shows "ex \<in> set ss" "telegramId ex = tid" "status ex = Active \<or> status ex = Grace"
  using assms by (auto simp: find_Some_iff)

lemma createSubscription_quiet:
  assumes d: "distinct (map sid (subs w))"
  shows "quiet tid w (worldOf (createSubscription env now tid pl admin w))"
proof -
  let ?w1 = "worldOf (createSubscription env now tid pl admin w)"
  have "filter (\<lambda>s. telegramId s \<noteq> tid) (subs ?w1) = filter (\<lambda>s. telegramId s \<noteq> tid) (subs w)"
    using createSubscription_subs_cases [of env now tid pl admin w]
  proof (elim disjE exE conjE)
    assume "subs ?w1 = subs w"
    then show ?thesis by simp
  next
    fix ex
    assume f: "find (\<lambda>s. telegramId s = tid \<and> (status s = Active \<or> status s = Grace)) (subs w) = Some ex"
      and s: "subs ?w1 = updateFirst (\<lambda>s. sid s = sid ex) (renew now pl admin ex) (subs w)"
    have "\<forall>x\<in>set (subs w). sid x = sid ex \<longrightarrow> \<not> telegramId x \<noteq> tid"
      using sid_inj [OF d] find_live [OF f] by blast
    then have "filter (\<lambda>s. telegramId s \<noteq> tid)
        (updateFirst (\<lambda>s. sid s = sid ex) (renew now pl admin ex) (subs w))
      = filter (\<lambda>s. telegramId s \<noteq> tid) (subs w)"
      by (rule filter_updateFirst_own) simp
    with s show ?thesis by simp
  next
    fix new
    assume "telegramId new = tid" and "subs ?w1 = subs w @ [new]"
    then show ?thesis by simp
  qed
  then show ?thesis
    by (simp add: quiet_def createSubscription_frame)
qed

lemma createSubscription_Ret:
  assumes "createSubscription env now tid pl admin w = Ret sub w1"
  shows "(\<exists>ex. find (\<lambda>s. telegramId s = tid \<and> (status s = Active \<or> status s = Grace)) (subs w) = Some ex
          \<and> sub = renew now pl admin ex ex
          \<and> subs w1 = updateFirst (\<lambda>s. sid s = sid ex) (renew now pl admin ex) (subs w))
    \<or> (find (\<lambda>s. telegramId s = tid \<and> (status s = Active \<or> status s = Grace)) (subs w) = None
          \<and> sid sub = freshSid (subs w) \<and> telegramId sub = tid \<and> status sub = Active
          \<and> subs w1 = subs w @ [sub])"
  using assms by (auto simp: createSubscription_def Let_def split: option.splits if_splits)

lemma foldr_max_ge: "x \<in> set xs \<Longrightarrow> x \<le> foldr max xs (0::nat)"
  by (induction xs) auto

lemma freshSid_fresh: "freshSid ss \<notin> set (map sid ss)"
proof
  assume "freshSid ss \<in> set (map sid ss)"
  then have "freshSid ss \<le> foldr max (map sid ss) 0"
    by (rule foldr_max_ge)
  then show False
    by (simp add: freshSid_def)
qed

lemma filter_le1_unique:
  assumes "length (filter P xs) \<le> 1" and "a \<in> set xs" and "b \<in> set xs" and "P a" and "P b"
  shows "a = b"
  using assms
proof (induction xs)
  case Nil
  then show ?case by simp
next
  case (Cons x xs)
  show ?case
  proof (cases "P x")
    case True
    with Cons.prems(1) have "filter P xs = []" by simp
    then have "\<forall>y\<in>set xs. \<not> P y"
      by (simp add: filter_empty_conv)
    with Cons.prems True show ?thesis by auto
  next
    case False
    with Cons show ?thesis by auto
  qed
qed

lemma history_mem: "s \<in> set (subs w) \<Longrightarrow> (telegramId s, status s) \<in> set (history w)"
  by (auto simp: history_def)

lemma createSubscription_own:
  assumes d: "distinct (map sid (subs w))"
    and r: "createSubscription env now tid pl admin w = Ret sub w1"
  shows "\<forall>s\<in>set (subs w1). sid s = sid sub \<longrightarrow> telegramId s = tid"
    and "\<exists>p\<in>set (history w1). fst p = tid"
proof -
  let ?live = "\<lambda>s. telegramId s = tid \<and> (status s = Active \<or> status s = Grace)"
  have "(\<forall>s\<in>set (subs w1). sid s = sid sub \<longrightarrow> telegramId s = tid)
      \<and> (\<exists>p\<in>set (history w1). fst p = tid)"
    using createSubscription_Ret [OF r]
  proof (elim disjE exE conjE)
    fix ex
    assume f: "find ?live (subs w) = Some ex" and sub: "sub = renew now pl admin ex ex"
      and s: "subs w1 = updateFirst (\<lambda>s. sid s = sid ex) (renew now pl admin ex) (subs w)"
    let ?h = "\<lambda>x. if sid x = sid ex then renew now pl admin ex x else x"
    have m: "subs w1 = map ?h (subs w)"
      unfolding s using d by (rule updateFirst_distinct)
    have own: "telegramId s = tid" if "s \<in> set (subs w1)" "sid s = sid sub" for s
    proof -
      from that(1) m obtain x where x: "x \<in> set (subs w)" "s = ?h x" by auto
      with that(2) sub have "sid x = sid ex" by (auto split: if_splits)
      with x(1) have "x = ex"
        using sid_inj [OF d] find_live(1) [OF f] by blast
      with x(2) find_live(2) [OF f] show ?thesis by simp
    qed
    have "renew now pl admin ex ex \<in> set (subs w1)"
      unfolding m using find_live(1) [OF f] by (auto simp: image_iff intro!: bexI [where x = ex])
    then have "(telegramId (renew now pl admin ex ex), status (renew now pl admin ex ex)) \<in> set (history w1)"
      by (rule history_mem)
    then have "\<exists>p\<in>set (history w1). fst p = tid"
      by (rule rev_bexI) (simp add: find_live(2) [OF f])
    with own show ?thesis by blast
  next
    assume n: "find ?live (subs w) = None" and i: "sid sub = freshSid (subs w)"
      and t: "telegramId sub = tid" and s: "subs w1 = subs w @ [sub]"
    have "s' \<in> set (subs w) \<Longrightarrow> sid s' \<noteq> sid sub" for s'
      using freshSid_fresh [of "subs w"] i by (auto simp: image_iff)
    with s t have "\<forall>s\<in>set (subs w1). sid s = sid sub \<longrightarrow> telegramId s = tid"
      by auto
    moreover have "\<exists>p\<in>set (history w1). fst p = tid"
      using s t by (auto simp: history_def)
    ultimately show ?thesis by blast
  qed
  then show "\<forall>s\<in>set (subs w1). sid s = sid sub \<longrightarrow> telegramId s = tid"
    and "\<exists>p\<in>set (history w1). fst p = tid"
    by blast+
qed

lemma createSubscription_states:
  assumes d: "distinct (map sid (subs w))"
    and nc: "\<forall>s\<in>set (subs w). telegramId s = tid \<longrightarrow> status s \<noteq> Cancelled"
    and one: "length (filter (\<lambda>s. telegramId s = tid \<and> (status s = Active \<or> status s = Grace)) (subs w)) \<le> 1"
    and r: "createSubscription env now tid pl admin w = Ret sub w1"
  shows "\<forall>p\<in>set (history w1). fst p = tid \<longrightarrow> snd p = Active \<or> snd p = Expired"
proof -
  let ?live = "\<lambda>s. telegramId s = tid \<and> (status s = Active \<or> status s = Grace)"
  have old: "status x = Expired" if "x \<in> set (subs w)" "telegramId x = tid" "\<not> ?live x" for x
    using that nc by (cases "status x") auto
  have "\<forall>s\<in>set (subs w1). telegramId s = tid \<longrightarrow> status s = Active \<or> status s = Expired"
    using createSubscription_Ret [OF r]
  proof (elim disjE exE conjE)
    fix ex
    assume f: "find ?live (subs w) = Some ex"
      and s: "subs w1 = updateFirst (\<lambda>s. sid s = sid ex) (renew now pl admin ex) (subs w)"
    let ?h = "\<lambda>x. if sid x = sid ex then renew now pl admin ex x else x"
    have m: "subs w1 = map ?h (subs w)"
      unfolding s using d by (rule updateFirst_distinct)
    show ?thesis
    proof (intro ballI impI)
      fix s'
      assume "s' \<in> set (subs w1)" and t: "telegramId s' = tid"
      with m obtain x where x: "x \<in> set (subs w)" "s' = ?h x" by auto
      show "status s' = Active \<or> status s' = Expired"
      proof (cases "sid x = sid ex")
        case True
        with x(2) show ?thesis by simp
      next
        case False
        with x(2) have e: "s' = x" by simp
        have "\<not> ?live x"
        proof
          assume "?live x"
          then have "x = ex"
            using filter_le1_unique [OF one x(1) find_live(1) [OF f]] find_live(2,3) [OF f] by blast
          with False show False by simp
        qed
        with old [OF x(1)] t e show ?thesis by simp
      qed
    qed
  next
    assume n: "find ?live (subs w) = None" and st: "status sub = Active"
      and s: "subs w1 = subs w @ [sub]"
    from n have "\<forall>x\<in>set (subs w). \<not> ?live x"
      by (simp add: find_None_iff)
    with old s st show ?thesis by auto
  qed
  then show ?thesis
    by (auto simp: history_def)
qed

lemma createSubscription_Rej:
  "storeOk env \<Longrightarrow> createSubscription env now tid pl admin w = Rej e w1 \<Longrightarrow> getUser w tid = None"
  by (simp add: createSubscription_def Let_def split: option.splits)


section \<open>The shape of the collection\<close>

lemma wellFormed_iff:
  "wellFormed w \<longleftrightarrow>
     distinct (map sid (subs w)) \<and> (\<forall>s\<in>set (subs w). status s \<noteq> Cancelled)
     \<and> (\<forall>t. length (filter (\<lambda>s. telegramId s = t \<and> (status s = Active \<or> status s = Grace)) (subs w)) \<le> 1)"
proof -
  have "length (filter (\<lambda>s. telegramId s = t \<and> (status s = Active \<or> status s = Grace)) (subs w)) \<le> 1"
    if "t \<notin> set (map telegramId (subs w))" for t
  proof -
    from that have "filter (\<lambda>s. telegramId s = t \<and> (status s = Active \<or> status s = Grace)) (subs w) = []"
      by (auto simp: filter_empty_conv)
    then show ?thesis by simp
  qed
  then show ?thesis
    unfolding wellFormed_def by blast
qed

lemma length_filter_mono:
  "(\<And>x. x \<in> set xs \<Longrightarrow> P x \<Longrightarrow> Q x) \<Longrightarrow> length (filter P xs) \<le> length (filter Q xs)"
  by (induction xs) auto

lemma wellFormed_map:
  assumes wf: "wellFormed w" and m: "subs w' = map h (subs w)"
    and i: "\<And>s. sid (h s) = sid s" and t: "\<And>s. telegramId (h s) = telegramId s"
    and l: "\<And>s. s \<in> set (subs w) \<Longrightarrow> status (h s) = Active \<or> status (h s) = Grace
              \<Longrightarrow> status s = Active \<or> status s = Grace"
    and c: "\<And>s. s \<in> set (subs w) \<Longrightarrow> status (h s) \<noteq> Cancelled"
  shows "wellFormed w'"
proof -
  have "length (filter (\<lambda>s. telegramId s = u \<and> (status s = Active \<or> status s = Grace)) (map h (subs w))) \<le> 1"
    for u
  proof -
    have "length (filter (\<lambda>s. telegramId s = u \<and> (status s = Active \<or> status s = Grace)) (map h (subs w)))
        = length (filter (\<lambda>s. telegramId (h s) = u \<and> (status (h s) = Active \<or> status (h s) = Grace)) (subs w))"
      by (simp add: filter_map comp_def)
    also have "\<dots> \<le> length (filter (\<lambda>s. telegramId s = u \<and> (status s = Active \<or> status s = Grace)) (subs w))"
      by (rule length_filter_mono) (use t l in auto)
    also have "\<dots> \<le> 1"
      using wf by (simp add: wellFormed_iff)
    finally show ?thesis .
  qed
  moreover have "distinct (map sid (map h (subs w)))"
    using wf by (simp add: wellFormed_iff comp_def i)
  ultimately show ?thesis
    using c by (simp add: wellFormed_iff m)
qed

lemma wellFormed_updateFirst:
  assumes wf: "wellFormed w" and m: "subs w' = updateFirst (\<lambda>s. sid s = k) f (subs w)"
    and i: "\<And>s. sid (f s) = sid s" and t: "\<And>s. telegramId (f s) = telegramId s"
    and l: "\<And>s. s \<in> set (subs w) \<Longrightarrow> sid s = k \<Longrightarrow> status (f s) = Active \<or> status (f s) = Grace
              \<Longrightarrow> status s = Active \<or> status s = Grace"
    and c: "\<And>s. s \<in> set (subs w) \<Longrightarrow> sid s = k \<Longrightarrow> status (f s) \<noteq> Cancelled"
  shows "wellFormed w'"
proof (rule wellFormed_map [OF wf, where h = "\<lambda>x. if sid x = k then f x else x"])
  show "subs w' = map (\<lambda>x. if sid x = k then f x else x) (subs w)"
    unfolding m using wf by (intro updateFirst_distinct) (simp add: wellFormed_iff)
  show "status (if sid s = k then f s else s) \<noteq> Cancelled" if "s \<in> set (subs w)" for s
    using that c wf by (simp add: wellFormed_iff)
qed (use i t l in \<open>auto split: if_splits\<close>)

lemma wellFormed_shape:
  assumes "shape w' = shape w" and "wellFormed w"
  shows "wellFormed w'"
proof -
  have q: "map sid (subs v) = map fst (shape v)"
    "map status (subs v) = map (\<lambda>p. snd (snd p)) (shape v)"
    "length (filter (\<lambda>s. telegramId s = u \<and> (status s = Active \<or> status s = Grace)) (subs v))
       = length (filter (\<lambda>p. fst (snd p) = u \<and> (snd (snd p) = Active \<or> snd (snd p) = Grace)) (shape v))"
    for v u
    by (simp_all add: shape_def filter_map comp_def)
  have n: "(\<forall>s\<in>set (subs v). status s \<noteq> Cancelled) \<longleftrightarrow> Cancelled \<notin> set (map status (subs v))" for v
    by (auto simp: image_iff)
  show ?thesis
    using assms(2) unfolding wellFormed_iff n q assms(1) .
qed

lemma shape_frame [simp]:
  "shape (emit e w) = shape w" "shape (createLog l w) = shape w"
  "shape (logToChannel m w) = shape w" "shape (updateUser t f w) = shape w"
  "shape (snd (safeSend env t m w)) = shape w" "shape (snd (banFromGroup env t w)) = shape w"
  "shape (markBonusApplied env t r w) = shape w"
  by (simp_all add: shape_def markBonusApplied_def Let_def)

lemma shape_updateSub:
  assumes "\<And>s. sid (f s) = sid s" and "\<And>s. telegramId (f s) = telegramId s"
    and "\<And>s. status (f s) = status s"
  shows "shape (updateSub i f w) = shape w"
  by (simp add: shape_def map_updateFirst assms)

subsection \<open>The jobs that do not change a state\<close>

lemma reminderStep_shape: "shape (worldOf (reminderStep env days flg x w)) = shape w"
  by (simp add: reminderStep_def safeSend_def Let_def shape_def handleBlockedUser_def map_updateFirst
      split: delivery.splits)

lemma reminderScheduler_shape: "shape (worldOf (reminderScheduler env now w)) = shape w"
proof -
  have cp: "shape (worldOf (reminderCheckpoint env now c v)) = shape v" for c and v :: world
  proof (cases c)
    case (Pair days flg)
    have "shape (worldOf (forEach (reminderStep env days flg) xs v)) = shape v" for xs
      by (rule forEach_invariant [where I = "\<lambda>w'. shape w' = shape v"])
        (simp_all add: reminderStep_shape)
    with Pair show ?thesis
      by (simp add: reminderCheckpoint_def)
  qed
  have "shape (worldOf (forEach (reminderCheckpoint env now) checkpoints w)) = shape w"
    by (rule forEach_invariant [where I = "\<lambda>w'. shape w' = shape w"]) (simp_all add: cp)
  then show ?thesis
    by (simp add: reminderScheduler_def)
qed

lemma monitorActiveStep_shape: "shape (worldOf (monitorActiveStep env x w)) = shape w"
  by (simp add: monitorActiveStep_def Let_def generateInviteLink_def shape_updateSub
      split: option.splits)

lemma monitorExpiredStep_shape: "shape (worldOf (monitorExpiredStep env x w)) = shape w"
  by (simp add: monitorExpiredStep_def Let_def)

lemma membershipMonitor_shape: "shape (worldOf (membershipMonitor env now w)) = shape w"
proof -
  have a: "shape (worldOf (underProvisionedPass env now v)) = shape v" for v
  proof -
    have "shape (worldOf (forEach (monitorActiveStep env) xs v)) = shape v" for xs
      by (rule forEach_invariant [where I = "\<lambda>w'. shape w' = shape v"])
        (simp_all add: monitorActiveStep_shape)
    then show ?thesis
      by (simp add: underProvisionedPass_def)
  qed
  have b: "shape (worldOf (overProvisionedPass env v)) = shape v" for v
  proof -
    have "shape (worldOf (forEach (monitorExpiredStep env) xs v)) = shape v" for xs
      by (rule forEach_invariant [where I = "\<lambda>w'. shape w' = shape v"])
        (simp_all add: monitorExpiredStep_shape)
    then show ?thesis
      by (simp add: overProvisionedPass_def)
  qed
  show ?thesis
    using a [of w] b [of "worldOf (underProvisionedPass env now w)"]
    by (cases "underProvisionedPass env now w") (simp_all add: membershipMonitor_def)
qed

subsection \<open>The grace job\<close>

lemma forEach_remaining:
  assumes "I xs w" and "\<And>x rest v. I (x # rest) v \<Longrightarrow> I rest (worldOf (f x v))"
  shows "\<exists>rest. I rest (worldOf (forEach f xs w))"
  using assms(1)
proof (induction xs arbitrary: w)
  case Nil
  then show ?case by auto
next
  case (Cons x xs)
  from assms(2) [OF Cons.prems] have s: "I xs (worldOf (f x w))" .
  show ?case
  proof (cases "f x w")
    case (Ret u w1)
    with s Cons.IH [of w1] show ?thesis by simp
  next
    case (Rej e w1)
    with s show ?thesis by auto
  qed
qed

lemma graceEntryStep_subs_cases:
  "subs (worldOf (graceEntryStep env x w)) = subs w
   \<or> subs (worldOf (graceEntryStep env x w))
       = updateFirst (\<lambda>s. sid s = sid x) (\<lambda>s. s\<lparr>status := Grace, graceDaysUsed := 0\<rparr>) (subs w)"
  by (simp add: graceEntryStep_def Let_def)

lemma graceEntryStep_wellFormed:
  assumes wf: "wellFormed w" and x: "getSub w (sid x) = Some x" "status x = Active"
  shows "wellFormed (worldOf (graceEntryStep env x w))"
  using graceEntryStep_subs_cases [of env x w]
proof
  assume "subs (worldOf (graceEntryStep env x w)) = subs w"
  with wf show ?thesis
    by (simp add: wellFormed_def)
next
  assume m: "subs (worldOf (graceEntryStep env x w))
       = updateFirst (\<lambda>s. sid s = sid x) (\<lambda>s. s\<lparr>status := Grace, graceDaysUsed := 0\<rparr>) (subs w)"
  have same: "s = x" if "s \<in> set (subs w)" "sid s = sid x" for s
    using wf x(1) that by (intro getSub_unique [of w "sid x"]) (simp_all add: wellFormed_iff)
  show ?thesis
    using wf m by (rule wellFormed_updateFirst) (use same x(2) in auto)
qed

lemma graceEntryPass_wellFormed:
  assumes wf: "wellFormed w"
  shows "wellFormed (worldOf (graceEntryPass env today w))"
proof -
  let ?I = "\<lambda>rest v. wellFormed v \<and> distinct (map sid rest)
      \<and> (\<forall>x\<in>set rest. getSub v (sid x) = Some x \<and> status x = Active)"
  have d: "distinct (map sid (subs w))"
    using wf by (simp add: wellFormed_iff)
  have "\<exists>rest. ?I rest (worldOf (forEach (graceEntryStep env) (justExpired today w) w))"
  proof (rule forEach_remaining [where I = ?I])
    have "getSub w (sid x) = Some x" if "x \<in> set (subs w)" for x
      unfolding getSub_def using d that by (rule find_distinct_mem)
    then show "?I (justExpired today w) w"
      using wf d by (simp add: justExpired_def distinct_map_filter)
  next
    fix x rest and v :: world
    assume I: "?I (x # rest) v"
    then have "wellFormed (worldOf (graceEntryStep env x v))"
      by (intro graceEntryStep_wellFormed) simp_all
    moreover have "getSub (worldOf (graceEntryStep env x v)) (sid y) = Some y" if "y \<in> set rest" for y
    proof -
      from I that have "sid x \<noteq> sid y" by auto
      then have "getSub (worldOf (graceEntryStep env x v)) (sid y) = getSub v (sid y)"
        by (rule graceEntryStep_getSub_other)
      with I that show ?thesis by simp
    qed
    ultimately show "?I rest (worldOf (graceEntryStep env x v))"
      using I by simp
  qed
  then show ?thesis
    using wf by (auto simp: graceEntryPass_def)
qed

lemma graceStep_subs_cases:
  "subs (worldOf (graceStep env today x w)) = subs w
   \<or> subs (worldOf (graceStep env today x w))
       = updateFirst (\<lambda>s. sid s = sid x) (\<lambda>s. s\<lparr>status := Expired, graceDaysUsed := GRACE_DAYS env\<rparr>) (subs w)
   \<or> subs (worldOf (graceStep env today x w))
       = updateFirst (\<lambda>s. sid s = sid x)
           (\<lambda>s. s\<lparr>graceNotifications := (graceNotifications s)\<lparr>day2 := True\<rparr>\<rparr>) (subs w)
   \<or> subs (worldOf (graceStep env today x w))
       = updateFirst (\<lambda>s. sid s = sid x)
           (\<lambda>s. s\<lparr>graceNotifications := (graceNotifications s)\<lparr>day1 := True\<rparr>\<rparr>) (subs w)"
  by (simp add: graceStep_def Let_def)

lemma graceStep_wellFormed:
  assumes wf: "wellFormed w"
  shows "wellFormed (worldOf (graceStep env today x w))"
  using graceStep_subs_cases [of env today x w]
proof (elim disjE)
  assume "subs (worldOf (graceStep env today x w)) = subs w"
  with wf show ?thesis
    by (simp add: wellFormed_def)
next
  assume "subs (worldOf (graceStep env today x w))
       = updateFirst (\<lambda>s. sid s = sid x) (\<lambda>s. s\<lparr>status := Expired, graceDaysUsed := GRACE_DAYS env\<rparr>) (subs w)"
  with wf show ?thesis
    by (rule wellFormed_updateFirst) simp_all
next
  assume m: "subs (worldOf (graceStep env today x w))
       = updateFirst (\<lambda>s. sid s = sid x)
           (\<lambda>s. s\<lparr>graceNotifications := (graceNotifications s)\<lparr>day2 := True\<rparr>\<rparr>) (subs w)"
  show ?thesis
    using wf m by (rule wellFormed_updateFirst) (use wf in \<open>simp_all add: wellFormed_iff\<close>)
next
  assume m: "subs (worldOf (graceStep env today x w))
       = updateFirst (\<lambda>s. sid s = sid x)
           (\<lambda>s. s\<lparr>graceNotifications := (graceNotifications s)\<lparr>day1 := True\<rparr>\<rparr>) (subs w)"
  show ?thesis
    using wf m by (rule wellFormed_updateFirst) (use wf in \<open>simp_all add: wellFormed_iff\<close>)
qed

lemma inGracePass_wellFormed:
  assumes "wellFormed w"
  shows "wellFormed (worldOf (inGracePass env today w))"
proof -
  have "wellFormed (worldOf (forEach (graceStep env today) xs w))" for xs
    using assms by (rule forEach_invariant) (rule graceStep_wellFormed)
  with assms show ?thesis
    by (simp add: inGracePass_def)
qed

lemma gracePeriodHandler_wellFormed:
  assumes "wellFormed w"
  shows "wellFormed (worldOf (gracePeriodHandler env now w))"
proof (cases "graceEntryPass env (startOfToday now) w")
  case (Ret u w1)
  with graceEntryPass_wellFormed [OF assms, of env "startOfToday now"] have "wellFormed w1"
    by simp
  then have "wellFormed (worldOf (inGracePass env (startOfToday now) w1))"
    by (rule inGracePass_wellFormed)
  with Ret show ?thesis
    by (simp add: gracePeriodHandler_def)
next
  case (Rej e w1)
  with graceEntryPass_wellFormed [OF assms, of env "startOfToday now"] show ?thesis
    by (simp add: gracePeriodHandler_def)
qed


subsection \<open>Approvals\<close>

lemma createSubscription_subs_shape:
  "subs (worldOf (createSubscription env now tid pl admin w)) = subs w
   \<or> (\<exists>ex. find (\<lambda>s. telegramId s = tid \<and> (status s = Active \<or> status s = Grace)) (subs w) = Some ex
         \<and> subs (worldOf (createSubscription env now tid pl admin w))
             = updateFirst (\<lambda>s. sid s = sid ex) (renew now pl admin ex) (subs w))
   \<or> (\<exists>new. telegramId new = tid \<and> status new = Active \<and> sid new = freshSid (subs w)
         \<and> find (\<lambda>s. telegramId s = tid \<and> (status s = Active \<or> status s = Grace)) (subs w) = None
         \<and> subs (worldOf (createSubscription env now tid pl admin w)) = subs w @ [new])"
  by (simp add: createSubscription_def Let_def split: option.splits)

lemma createSubscription_wellFormed:
  assumes wf: "wellFormed w"
  shows "wellFormed (worldOf (createSubscription env now tid pl admin w))"
proof -
  let ?w1 = "worldOf (createSubscription env now tid pl admin w)"
  let ?live = "\<lambda>t s. telegramId s = t \<and> (status s = Active \<or> status s = Grace)"
  have d: "distinct (map sid (subs w))"
    using wf by (simp add: wellFormed_iff)
  from createSubscription_subs_shape [of env now tid pl admin w] show ?thesis
  proof (elim disjE exE conjE)
    assume "subs ?w1 = subs w"
    with wf show ?thesis
      by (simp add: wellFormed_def)
  next
    fix ex
    assume f: "find (?live tid) (subs w) = Some ex"
      and m: "subs ?w1 = updateFirst (\<lambda>s. sid s = sid ex) (renew now pl admin ex) (subs w)"
    have same: "s = ex" if "s \<in> set (subs w)" "sid s = sid ex" for s
      using sid_inj [OF d that(1) find_live(1) [OF f] that(2)] .
    show ?thesis
      using wf m by (rule wellFormed_updateFirst) (use same find_live(3) [OF f] in auto)
  next
    fix new
    assume n: "telegramId new = tid" "status new = Active" "sid new = freshSid (subs w)"
      and none: "find (?live tid) (subs w) = None"
      and m: "subs ?w1 = subs w @ [new]"
    have "sid new \<notin> set (map sid (subs w))"
      unfolding n(3) by (rule freshSid_fresh)
    with d have d1: "distinct (map sid (subs w @ [new]))"
      by simp
    from none have "filter (?live tid) (subs w) = []"
      by (simp add: find_None_iff filter_empty_conv)
    then have "length (filter (?live t) (subs w @ [new])) \<le> 1" for t
      using wf n by (cases "t = tid") (simp_all add: wellFormed_iff)
    with d1 wf n show ?thesis
      by (simp add: wellFormed_iff m)
  qed
qed

lemma shape_awardReferralBonus: "shape (awardReferralBonus env now tid w) = shape w"
  by (simp add: awardReferralBonus_def shape_updateSub split: option.splits)

lemma approveAction_shape:
  "shape (approveAction env now tid pl admin w)
     = shape (worldOf (createSubscription env now tid pl admin w))"
  by (simp add: approveAction_def Let_def generateInviteLink_def shape_updateSub
      shape_awardReferralBonus split: res.splits option.splits)

text \<open>
  Every operation keeps the shape of the collection, whatever the environment; a start
  with an empty collection has it.
\<close>

lemma wellFormed_kept:
  assumes "wellFormed w"
  shows "wellFormed (approveAction env now tid pl admin w)"
    and "wellFormed (worldOf (reminderScheduler env now w))"
    and "wellFormed (worldOf (gracePeriodHandler env now w))"
    and "wellFormed (worldOf (membershipMonitor env now w))"
proof -
  have "wellFormed (worldOf (createSubscription env now tid pl admin w))"
    using assms by (rule createSubscription_wellFormed)
  then show "wellFormed (approveAction env now tid pl admin w)"
    by (rule wellFormed_shape [OF approveAction_shape])
  show "wellFormed (worldOf (reminderScheduler env now w))"
    using reminderScheduler_shape assms by (rule wellFormed_shape)
  show "wellFormed (worldOf (gracePeriodHandler env now w))"
    using assms by (rule gracePeriodHandler_wellFormed)
  show "wellFormed (worldOf (membershipMonitor env now w))"
    using membershipMonitor_shape assms by (rule wellFormed_shape)
qed

lemma wellFormed_empty: "subs w = [] \<Longrightarrow> wellFormed w"
  by (simp add: wellFormed_def)

lemma wellFormed_user:
  assumes "wellFormed w"
  shows "distinct (map sid (subs w))"
    and "\<forall>s\<in>set (subs w). telegramId s = tid \<longrightarrow> status s \<noteq> Cancelled"
    and "length (filter (\<lambda>s. telegramId s = tid \<and> (status s = Active \<or> status s = Grace)) (subs w)) \<le> 1"
  using assms by (simp_all add: wellFormed_iff)


subsection \<open>The referral rule\<close>

lemma awardReferralBonus_cases:
  "awardReferralBonus env now tid w = w
   \<or> (\<exists>u r. getUser w tid = Some u \<and> referredBy u = Some r \<and> r \<noteq> 0
         \<and> \<not> referralBonusApplied u \<and> subCount w tid \<le> 1)"
  by (auto simp: awardReferralBonus_def split: option.splits)

lemma history_markBonusApplied [simp]: "history (markBonusApplied env t r w) = history w"
  by (simp add: markBonusApplied_def Let_def)

lemma history_awardReferralBonus: "history (awardReferralBonus env now tid w) = history w"
  by (simp add: awardReferralBonus_def history_updateSub split: option.splits)

lemma awardReferralBonus_marks:
  assumes "storeOk env" and "getUser w tid = Some u" and "referredBy u = Some r" and "r \<noteq> 0"
    and "\<not> referralBonusApplied u" and "subCount w tid \<le> 1" and "getUser w r \<noteq> None"
  shows "bonusApplied (awardReferralBonus env now tid w) tid"
proof -
  have mark: "bonusApplied (markBonusApplied env tid x w1) tid"
    if "getUser w1 tid = getUser w tid" for x and w1 :: world
  proof -
    have "getUser (updateUser tid (\<lambda>u. u\<lparr>referralBonusApplied := True\<rparr>) w1) tid
        = map_option (\<lambda>u. u\<lparr>referralBonusApplied := True\<rparr>) (getUser w1 tid)"
      by (subst getUser_updateUser) simp_all
    then show ?thesis
      using assms(1,2) that by (simp add: markBonusApplied_def Let_def bonusApplied_def)
  qed
  show ?thesis
    using assms by (auto simp: awardReferralBonus_def mark split: option.splits)
qed

lemma all_states: "st = Active \<or> st = Grace \<or> st = Expired \<or> st = Cancelled"
  by (cases st) auto

lemma subCount_history:
  "subCount w tid = length (filter (\<lambda>p. fst p = tid \<and> (snd p = Active \<or> snd p = Expired)) (history w))"
  by (simp add: subCount_def history_def filter_map comp_def)

lemma historyCount_history: "historyCount w tid = length (filter (\<lambda>p. fst p = tid) (history w))"
  by (simp add: historyCount_def history_def filter_map comp_def all_states)

lemma subCount_le: "subCount w tid \<le> historyCount w tid"
proof -
  have "length (filter (\<lambda>p. fst p = tid \<and> Q p) xs) \<le> length (filter (\<lambda>p. fst p = tid) xs)"
    for Q :: "int \<times> sub_status \<Rightarrow> bool" and xs
    by (induction xs) auto
  then show ?thesis
    by (simp add: subCount_history historyCount_history)
qed

lemma counts_agree:
  assumes "\<forall>p\<in>set (history w). fst p = tid \<longrightarrow> snd p = Active \<or> snd p = Expired"
  shows "subCount w tid = historyCount w tid"
proof -
  have "filter (\<lambda>p. fst p = tid \<and> (snd p = Active \<or> snd p = Expired)) (history w)
      = filter (\<lambda>p. fst p = tid) (history w)"
    by (rule filter_cong) (use assms in auto)
  then show ?thesis
    by (simp add: subCount_history historyCount_history)
qed

lemma historyCount_pos:
  assumes "\<exists>p\<in>set (history w). fst p = tid"
  shows "1 \<le> historyCount w tid"
proof -
  from assms have "filter (\<lambda>p. fst p = tid) (history w) \<noteq> []"
    by (simp add: filter_empty_conv)
  then have "0 < length (filter (\<lambda>p. fst p = tid) (history w))"
    by simp
  then show ?thesis
    by (simp add: historyCount_history Suc_le_eq)
qed

lemma historyCount_cong: "history w' = history w \<Longrightarrow> historyCount w' tid = historyCount w tid"
  by (simp add: historyCount_history)

lemma subCount_cong: "history w' = history w \<Longrightarrow> subCount w' tid = subCount w tid"
  by (simp add: subCount_history)

subsection \<open>The approval around the referral rule\<close>

lemma approveAction_cases:
  assumes d: "distinct (map sid (subs w))"
  shows "(quiet tid w (approveAction env now tid pl admin w) \<and> (storeOk env \<longrightarrow> getUser w tid = None))
    \<or> (\<exists>sub w1 w4. createSubscription env now tid pl admin w = Ret sub w1
         \<and> quiet tid w w4 \<and> history w4 = history w1
         \<and> quiet tid (awardReferralBonus env now tid w4) (approveAction env now tid pl admin w)
         \<and> history (approveAction env now tid pl admin w) = history (awardReferralBonus env now tid w4))"
proof (cases "createSubscription env now tid pl admin w")
  case (Rej e w1)
  have "quiet tid w w1"
    using createSubscription_quiet [OF d, of tid env now pl admin] Rej by simp
  moreover have "approveAction env now tid pl admin w = w1"
    using Rej by (simp add: approveAction_def)
  moreover have "storeOk env \<longrightarrow> getUser w tid = None"
    using createSubscription_Rej [OF _ Rej] by blast
  ultimately show ?thesis by simp
next
  case (Ret sub w1)
  let ?M = "ApprovalAlert tid (p_name pl) (p_durationDays pl) (expiryDate sub) (isRenewal sub)"
  let ?L = "\<lparr>adminId = admin, actionType = ''approve_request'', targetUserId = Some tid,
      logDetails = ApproveDetails (p_name pl) (p_durationDays pl) (isRenewal sub)\<rparr>"
  let ?T = "\<lambda>msg w3. let w4 = snd (safeSend env tid msg w3);
                        w5 = awardReferralBonus env now tid w4;
                        w6 = logToChannel ?M w5
                    in if fails env (AdminLogCreate tid) then w6 else createLog ?L w6"
  have q1: "quiet tid w w1"
    using createSubscription_quiet [OF d, of tid env now pl admin] Ret by simp
  have own: "\<forall>s\<in>set (subs w1). sid s = sid sub \<longrightarrow> telegramId s = tid"
    using d Ret by (rule createSubscription_own(1))
  have after: ?thesis
    if q3: "quiet tid w w3" and h3: "history w3 = history w1"
      and m: "\<And>n d. msg \<noteq> ReferralBonusMsg n d"
      and eq: "approveAction env now tid pl admin w = ?T msg w3" for msg and w3 :: world
  proof -
    let ?w4 = "snd (safeSend env tid msg w3)"
    let ?w5 = "awardReferralBonus env now tid ?w4"
    have q4: "quiet tid w ?w4"
      using q3 m by (rule quiet_safeSend)
    have h4: "history ?w4 = history w1"
      using h3 by simp
    have q6: "quiet tid ?w5 (logToChannel ?M ?w5)"
      by (rule quiet_logToChannel) simp
    then have q7: "quiet tid ?w5 (createLog ?L (logToChannel ?M ?w5))"
      by (rule quiet_createLog) simp
    have "quiet tid ?w5 (approveAction env now tid pl admin w)"
      "history (approveAction env now tid pl admin w) = history ?w5"
      unfolding eq using q6 q7 by (simp_all add: Let_def)
    with Ret q4 h4 show ?thesis
      by blast
  qed
  show ?thesis
  proof (cases "fails env (RequestUpdate tid)")
    case True
    then have "approveAction env now tid pl admin w = w1"
      using Ret by (simp add: approveAction_def)
    with q1 True show ?thesis
      by (auto simp: storeOk_def)
  next
    case nf: False
    show ?thesis
    proof (cases "isRenewal sub \<and> isGroupMember env tid w1")
      case True
      show ?thesis
      proof (rule after [OF q1])
        show "history w1 = history w1" by simp
        show "RenewedMsg (p_name pl) (p_durationDays pl) (expiryDate sub) \<noteq> ReferralBonusMsg n d" for n d
          by simp
        show "approveAction env now tid pl admin w
            = ?T (RenewedMsg (p_name pl) (p_durationDays pl) (expiryDate sub)) w1"
          by (simp add: approveAction_def Ret nf True)
      qed
    next
      case nr: False
      let ?w2 = "emit (CreateInviteLink tid) w1"
      have q2: "quiet tid w ?w2"
        using q1 by (rule quiet_emit) simp
      show ?thesis
      proof (cases "inviteLinkFor env tid")
        case None
        show ?thesis
        proof (rule after [OF q2])
          show "history ?w2 = history w1" by simp
          show "ApprovedMsg (p_name pl) (p_durationDays pl) (expiryDate sub) None \<noteq> ReferralBonusMsg n d"
            for n d by simp
          show "approveAction env now tid pl admin w
              = ?T (ApprovedMsg (p_name pl) (p_durationDays pl) (expiryDate sub) None) ?w2"
            by (simp add: approveAction_def generateInviteLink_def Ret nf nr None)
        qed
      next
        case (Some link)
        show ?thesis
        proof (cases "fails env (SubscriptionSave (sid sub))")
          case True
          then have "approveAction env now tid pl admin w = ?w2"
            by (simp add: approveAction_def generateInviteLink_def Ret nf nr Some)
          with q2 True show ?thesis
            by (auto simp: storeOk_def)
        next
          case False
          let ?w3 = "updateSub (sid sub) (\<lambda>s. s\<lparr>inviteLink := Some link\<rparr>) ?w2"
          have q3: "quiet tid w ?w3"
            using q2 by (rule quiet_updateSub_own) (use own in simp_all)
          show ?thesis
          proof (rule after [OF q3])
            show "history ?w3 = history w1"
              by (simp add: history_updateSub)
            show "ApprovedMsg (p_name pl) (p_durationDays pl) (expiryDate sub) (Some link)
                \<noteq> ReferralBonusMsg n d" for n d by simp
            show "approveAction env now tid pl admin w
                = ?T (ApprovedMsg (p_name pl) (p_durationDays pl) (expiryDate sub) (Some link)) ?w3"
              by (simp add: approveAction_def generateInviteLink_def Ret nf nr Some False)
          qed
        qed
      qed
    qed
  qed
qed

text \<open>
  C4. In the approval of a plan for user \<open>tid\<close>, the referral bonus is awarded only on
  that user's first subscription. The start is a state as the program keeps it
  (\<open>wellFormed\<close>, which holds of an empty collection and which every operation keeps, see
  \<open>wellFormed_kept\<close>): the ids of the documents are distinct, no subscription of the user
  is cancelled (no code writes that state) and at most one is active or in grace
  (\<open>createSubscription\<close> renews such a document instead of adding one). If the approval
  awards a bonus (the user's flag is
  set, the audit entry is written, the referrer is told or another user's subscription is
  changed), then the user had a referrer, \<^verbatim>\<open>referralBonusApplied\<close> was false, and the user's
  subscriptions in the states active, grace, expired and cancelled number exactly one;
  a user with any further subscription in the history gets no bonus. Conversely, the
  database working, a user with an existing referrer, the flag unset and exactly one
  subscription is awarded the bonus.
\<close>

theorem referral_bonus_only_on_first_subscription:
  assumes d: "distinct (map sid (subs w))"
    and nc: "\<forall>s\<in>set (subs w). telegramId s = tid \<longrightarrow> status s \<noteq> Cancelled"
    and one: "length (filter (\<lambda>s. telegramId s = tid \<and> (status s = Active \<or> status s = Grace)) (subs w)) \<le> 1"
  shows "(bonusAwarded w (approveAction env now tid pl admin w) tid \<longrightarrow>
            (\<exists>u r. getUser w tid = Some u \<and> referredBy u = Some r \<and> r \<noteq> 0
               \<and> \<not> referralBonusApplied u)
            \<and> historyCount (approveAction env now tid pl admin w) tid = 1)
    \<and> (storeOk env
         \<and> (\<exists>u r. getUser w tid = Some u \<and> referredBy u = Some r \<and> r \<noteq> 0
               \<and> \<not> referralBonusApplied u \<and> getUser w r \<noteq> None)
         \<and> historyCount (approveAction env now tid pl admin w) tid = 1
         \<longrightarrow> bonusAwarded w (approveAction env now tid pl admin w) tid)"
proof (rule conjI; rule impI)
  let ?w' = "approveAction env now tid pl admin w"
  assume aw: "bonusAwarded w ?w' tid"
  from approveAction_cases [OF d, of tid env now pl admin] aw quiet_not_awarded [of tid w ?w']
  obtain sub w1 w4 where r: "createSubscription env now tid pl admin w = Ret sub w1"
    and q4: "quiet tid w w4" and h4: "history w4 = history w1"
    and q': "quiet tid (awardReferralBonus env now tid w4) ?w'"
    and h': "history ?w' = history (awardReferralBonus env now tid w4)"
    by blast
  have "awardReferralBonus env now tid w4 \<noteq> w4"
  proof
    assume "awardReferralBonus env now tid w4 = w4"
    with q4 q' have "quiet tid w ?w'"
      by (simp add: quiet_trans)
    with aw show False
      using quiet_not_awarded by blast
  qed
  with awardReferralBonus_cases [of env now tid w4]
  obtain u4 r4 where u4: "getUser w4 tid = Some u4" "referredBy u4 = Some r4" "r4 \<noteq> 0"
    "\<not> referralBonusApplied u4" and c4: "subCount w4 tid \<le> 1"
    by blast
  from quiet_getUser [OF q4 u4(1)] u4
  have elig: "\<exists>u r. getUser w tid = Some u \<and> referredBy u = Some r \<and> r \<noteq> 0 \<and> \<not> referralBonusApplied u"
    by auto
  have st: "\<forall>p\<in>set (history w4). fst p = tid \<longrightarrow> snd p = Active \<or> snd p = Expired"
    unfolding h4 using d nc one r by (rule createSubscription_states)
  have ex: "\<exists>p\<in>set (history w4). fst p = tid"
    unfolding h4 using d r by (rule createSubscription_own(2))
  have "historyCount ?w' tid = historyCount w4 tid"
    by (rule historyCount_cong) (simp add: h' history_awardReferralBonus)
  moreover have "historyCount w4 tid = subCount w4 tid"
    using counts_agree [OF st] by simp
  moreover have "1 \<le> historyCount w4 tid"
    using ex by (rule historyCount_pos)
  ultimately have "historyCount ?w' tid = 1"
    using c4 by simp
  with elig show "(\<exists>u r. getUser w tid = Some u \<and> referredBy u = Some r \<and> r \<noteq> 0
               \<and> \<not> referralBonusApplied u) \<and> historyCount ?w' tid = 1"
    by simp
next
  let ?w' = "approveAction env now tid pl admin w"
  assume a: "storeOk env
         \<and> (\<exists>u r. getUser w tid = Some u \<and> referredBy u = Some r \<and> r \<noteq> 0
               \<and> \<not> referralBonusApplied u \<and> getUser w r \<noteq> None)
         \<and> historyCount ?w' tid = 1"
  then obtain u r where ok: "storeOk env" and u: "getUser w tid = Some u" "referredBy u = Some r"
    "r \<noteq> 0" "\<not> referralBonusApplied u" "getUser w r \<noteq> None" and c: "historyCount ?w' tid = 1"
    by blast
  from approveAction_cases [OF d, of tid env now pl admin] ok u(1)
  obtain sub w1 w4 where q4: "quiet tid w w4"
    and q': "quiet tid (awardReferralBonus env now tid w4) ?w'"
    and h': "history ?w' = history (awardReferralBonus env now tid w4)"
    by auto
  from quiet_getUser_None [OF q4, of tid] u(1) obtain u4 where u4: "getUser w4 tid = Some u4"
    by auto
  from quiet_getUser [OF q4 u4] u have f4: "referredBy u4 = Some r" "\<not> referralBonusApplied u4"
    by auto
  have r4: "getUser w4 r \<noteq> None"
    using quiet_getUser_None [OF q4, of r] u(5) by simp
  have "historyCount ?w' tid = historyCount w4 tid"
    by (rule historyCount_cong) (simp add: h' history_awardReferralBonus)
  with c subCount_le [of w4 tid] have c4: "subCount w4 tid \<le> 1"
    by simp
  have "bonusApplied (awardReferralBonus env now tid w4) tid"
    using ok u4 f4(1) u(3) f4(2) c4 r4 by (rule awardReferralBonus_marks)
  then have "bonusApplied ?w' tid"
    using quiet_bonusApplied [OF q', of tid] by simp
  moreover have "\<not> bonusApplied w tid"
    using u by (simp add: bonusApplied_def)
  ultimately show "bonusAwarded w ?w' tid"
    by (simp add: bonusAwarded_def)
qed

theorem referral_bonus_only_on_first_subscription_witness:
  "distinct (map sid (subs wReferrerActive)) \<and> storeOk env0
   \<and> getUser wReferrerActive 200 = Some bob \<and> referredBy bob = Some 100
   \<and> \<not> referralBonusApplied bob
   \<and> historyCount (approveAction env0 (day 10) 200 monthly 9 wReferrerActive) 200 = 1
   \<and> bonusAwarded wReferrerActive (approveAction env0 (day 10) 200 monthly 9 wReferrerActive) 200
   \<and> distinct (map sid (subs wReturning))
   \<and> historyCount (approveAction env0 (day 10) 200 monthly 9 wReturning) 200 = 2
   \<and> \<not> bonusAwarded wReturning (approveAction env0 (day 10) 200 monthly 9 wReturning) 200"
proof -
  have sa: "subs wReferrerActive = [\<lparr>sid = 1, userId = 1, telegramId = 100, planId = 1,
      planName = ''Monthly'', durationDays = 30, startDate = day 0, expiryDate = day 30,
      status = Active, approvedBy = Some 9, inviteLink = None, reminderFlags = (\<lambda>f. False),
      graceDaysUsed = 0, graceNotifications = noGraceNotifications, isRenewal = False\<rparr>]"
    by (simp add: wReferrerActive_def wTwoUsers_def joinGroup_def alice_def bob_def monthly_def
        create_defs prim_defs date_defs cfg_defs)
  have ua: "users wReferrerActive = [alice\<lparr>u_status := UActive\<rparr>, bob]"
    by (simp add: wReferrerActive_def wTwoUsers_def joinGroup_def alice_def bob_def monthly_def
        create_defs prim_defs date_defs cfg_defs)
  have h1: "distinct (map sid (subs wReferrerActive))"
    "\<forall>s\<in>set (subs wReferrerActive). telegramId s = 200 \<longrightarrow> status s \<noteq> Cancelled"
    "length (filter (\<lambda>s. telegramId s = 200 \<and> (status s = Active \<or> status s = Grace))
        (subs wReferrerActive)) \<le> 1"
    by (simp_all add: sa)
  have ok: "storeOk env0"
    by (simp add: storeOk_def env0_def)
  have g: "getUser wReferrerActive 200 = Some bob" "getUser wReferrerActive 100 \<noteq> None"
    by (simp_all add: getUser_def ua alice_def bob_def)
  have b: "referredBy bob = Some 100" "\<not> referralBonusApplied bob"
    by (simp_all add: bob_def)
  have c1: "historyCount (approveAction env0 (day 10) 200 monthly 9 wReferrerActive) 200 = 1"
    by (simp add: historyCount_def wReferrerActive_def wTwoUsers_def joinGroup_def alice_def bob_def
        monthly_def approveAction_def create_defs referral_defs prim_defs date_defs cfg_defs)
  have aw: "bonusAwarded wReferrerActive (approveAction env0 (day 10) 200 monthly 9 wReferrerActive) 200"
    using referral_bonus_only_on_first_subscription [OF h1, of env0 "day 10" monthly 9] ok g b c1
    by auto
  have h2: "distinct (map sid (subs wReturning))"
    "\<forall>s\<in>set (subs wReturning). telegramId s = 200 \<longrightarrow> status s \<noteq> Cancelled"
    "length (filter (\<lambda>s. telegramId s = 200 \<and> (status s = Active \<or> status s = Grace))
        (subs wReturning)) \<le> 1"
    by (simp_all add: wReturning_def)
  have c2: "historyCount (approveAction env0 (day 10) 200 monthly 9 wReturning) 200 = 2"
    by (simp add: historyCount_def wReturning_def mkSub_def alice_def bob_def
        monthly_def approveAction_def create_defs referral_defs prim_defs date_defs cfg_defs)
  have no: "\<not> bonusAwarded wReturning (approveAction env0 (day 10) 200 monthly 9 wReturning) 200"
    using referral_bonus_only_on_first_subscription [OF h2, of env0 "day 10" monthly 9] c2
    by auto
  from h1(1) ok g(1) b c1 aw h2(1) c2 no show ?thesis
    by blast
qed


end
